theory Spec2Isabelle
  imports Complex_Main "HOL-Library.While_Combinator"
begin

section \<open>Louvain clustering of scikit-network: a shallow embedding\<close>

text \<open>
  The development follows \<^verbatim>\<open>sknetwork/clustering/louvain.py\<close>. Conventions:
  \<^item> \<^verbatim>\<open>float64\<close> values are idealised as exact reals; rounding is not modelled.
  \<^item> A \<^verbatim>\<open>scipy.sparse.csr_matrix\<close> is its shape and, for each row \<open>i\<close>, the list of
    (column index, weight) pairs stored in \<^verbatim>\<open>indices[indptr[i]:indptr[i+1]]\<close> and
    \<^verbatim>\<open>data[indptr[i]:indptr[i+1]]\<close>.
  \<^item> Label arrays hold natural numbers (they come from \<^verbatim>\<open>np.arange\<close> and
    \<^verbatim>\<open>np.unique\<close>).
  \<^item> A Python exception is a value \<open>Inl e\<close>; a call that never returns is \<open>None\<close>.
\<close>

subsection \<open>Exceptions\<close>

datatype error = ValueError | TypeError | ZeroDivision

subsection \<open>Sparse matrices in CSR form\<close>

record csr_matrix =
  n_row :: nat
  n_col :: nat
  row_entries :: "(nat \<times> real) list list"

text \<open>The dense coefficient at \<open>(i, j)\<close>; duplicate stored entries add up, as in scipy.\<close>

definition coeff :: "csr_matrix \<Rightarrow> nat \<Rightarrow> nat \<Rightarrow> real" where
  "coeff m i j = sum_list (map snd (filter (\<lambda>e. fst e = j) (row_entries m ! i)))"

text \<open>Well-formed CSR data: one entry list per row, every column index inside the shape.\<close>

definition wf_csr :: "csr_matrix \<Rightarrow> bool" where
  "wf_csr m \<longleftrightarrow> length (row_entries m) = n_row m \<and>
     (\<forall>r \<in> set (row_entries m). \<forall>e \<in> set r. fst e < n_col m)"

text \<open>
  The result of a scipy matrix operation, given by its coefficients: stored entries are
  exactly the non-zero coefficients of each row.
\<close>

definition csr_of :: "nat \<Rightarrow> nat \<Rightarrow> (nat \<Rightarrow> nat \<Rightarrow> real) \<Rightarrow> csr_matrix" where
  "csr_of r c f =
     \<lparr>n_row = r, n_col = c,
      row_entries = map (\<lambda>i. map (\<lambda>j. (j, f i j)) (filter (\<lambda>j. f i j \<noteq> 0) [0..<c])) [0..<r]\<rparr>"

text \<open>\<^verbatim>\<open>m.data.sum()\<close>\<close>

definition data_sum :: "csr_matrix \<Rightarrow> real" where
  "data_sum m = sum_list (map snd (concat (row_entries m)))"

text \<open>\<^verbatim>\<open>m.indices\<close>\<close>

definition indices :: "csr_matrix \<Rightarrow> nat list" where
  "indices m = map fst (concat (row_entries m))"

text \<open>\<^verbatim>\<open>m.diagonal()\<close>\<close>

definition diagonal :: "csr_matrix \<Rightarrow> real list" where
  "diagonal m = map (\<lambda>i. coeff m i i) [0..<min (n_row m) (n_col m)]"

text \<open>\<^verbatim>\<open>m.T\<close>\<close>

definition transpose_csr :: "csr_matrix \<Rightarrow> csr_matrix" where
  "transpose_csr m = csr_of (n_col m) (n_row m) (\<lambda>i j. coeff m j i)"

text \<open>\<^verbatim>\<open>c * m\<close> and \<^verbatim>\<open>m / c\<close> act on the stored data and keep the sparsity structure.\<close>

definition scale_csr :: "real \<Rightarrow> csr_matrix \<Rightarrow> csr_matrix" where
  "scale_csr c m = m\<lparr>row_entries := map (map (\<lambda>e. (fst e, c * snd e))) (row_entries m)\<rparr>"

text \<open>\<^verbatim>\<open>a + b\<close>: scipy raises \<^verbatim>\<open>ValueError\<close> on inconsistent shapes.\<close>

definition add_csr :: "csr_matrix \<Rightarrow> csr_matrix \<Rightarrow> error + csr_matrix" where
  "add_csr a b =
     (if n_row a = n_row b \<and> n_col a = n_col b
      then Inr (csr_of (n_row a) (n_col a) (\<lambda>i j. coeff a i j + coeff b i j))
      else Inl ValueError)"

text \<open>\<^verbatim>\<open>a.dot(b)\<close> for two sparse matrices: \<^verbatim>\<open>ValueError\<close> on a dimension mismatch.\<close>

definition dot_csr :: "csr_matrix \<Rightarrow> csr_matrix \<Rightarrow> error + csr_matrix" where
  "dot_csr a b =
     (if n_col a = n_row b
      then Inr (csr_of (n_row a) (n_col b)
                 (\<lambda>i j. sum_list (map (\<lambda>k. coeff a i k * coeff b k j) [0..<n_col a])))
      else Inl ValueError)"

text \<open>\<^verbatim>\<open>a.dot(v)\<close> for a one-dimensional array \<open>v\<close>.\<close>

definition dot_vec :: "csr_matrix \<Rightarrow> real list \<Rightarrow> error + real list" where
  "dot_vec a v =
     (if n_col a = length v
      then Inr (map (\<lambda>i. sum_list (map (\<lambda>k. coeff a i k * v ! k) [0..<n_col a])) [0..<n_row a])
      else Inl ValueError)"

text \<open>\<^verbatim>\<open>sparse.identity(n, format='csr')\<close>\<close>

definition identity_csr :: "nat \<Rightarrow> csr_matrix" where
  "identity_csr n = \<lparr>n_row = n, n_col = n, row_entries = map (\<lambda>i. [(i, 1)]) [0..<n]\<rparr>"

subsection \<open>\<^verbatim>\<open>membership_matrix\<close>\<close>

text \<open>
  \<^verbatim>\<open>sparse.csr_matrix((np.ones(n), (np.arange(n), labels)))\<close>: row \<open>i\<close> stores a single
  \<open>1\<close> in column \<open>labels[i]\<close>; the shape is inferred from the largest index, and scipy
  raises \<^verbatim>\<open>ValueError\<close> when there is no index to infer it from.
\<close>

definition membership_matrix :: "nat list \<Rightarrow> error + csr_matrix" where
  "membership_matrix labels =
     (let n_nodes = length labels
      in if n_nodes = 0 then Inl ValueError
         else Inr \<lparr>n_row = n_nodes, n_col = Suc (fold max labels 0),
                   row_entries = map (\<lambda>l. [(l, 1)]) labels\<rparr>)"

subsection \<open>\<^verbatim>\<open>AggregateGraph\<close>\<close>

record aggregate_graph =
  n_nodes :: nat
  norm_adjacency :: csr_matrix
  out_probs :: "real list"
  in_probs :: "real list option"

subsection \<open>Helpers of the optimizer\<close>

text \<open>
  Modelled from the spec: \<^verbatim>\<open>directed2undirected\<close> lives in
  \<^verbatim>\<open>sknetwork.utils.adjacency_formats\<close>, which is not among the sources. The spec describes
  the optimizer's proxy as \<open>\<onehalf>\<cdot>(adjacency + adjacency\<^sup>T)\<close> and the driver's symmetrisation as
  the sum of forward and transposed weight, so the helper is the sum with the transpose.
\<close>

definition directed2undirected :: "csr_matrix \<Rightarrow> error + csr_matrix" where
  "directed2undirected adjacency = add_csr adjacency (transpose_csr adjacency)"

text \<open>\<^verbatim>\<open>weights[clusters == cluster].sum()\<close>: the sum under a boolean mask.\<close>

definition masked_sum :: "real list \<Rightarrow> nat list \<Rightarrow> nat \<Rightarrow> real" where
  "masked_sum weights clusters cluster =
     sum_list (map fst (filter (\<lambda>p. snd p = cluster) (zip weights clusters)))"

text \<open>\<^verbatim>\<open>xs.argmax()\<close>: the index of the first occurrence of the maximum.\<close>

definition argmax :: "real list \<Rightarrow> nat" where
  "argmax xs = length (takeWhile (\<lambda>x. x \<noteq> Max (set xs)) xs)"

text \<open>
  \<^verbatim>\<open>np.unique(labels, return_inverse=True)[1]\<close>: every label is replaced by its position
  in the sorted array of the distinct labels.
\<close>

definition unique_inverse :: "nat list \<Rightarrow> nat list" where
  "unique_inverse labels =
     (let u = sort (remdups labels)
      in map (\<lambda>l. length (takeWhile (\<lambda>x. x \<noteq> l) u)) labels)"

subsection \<open>The local variables of the optimizer's loops\<close>

record sweep_state =
  increase :: bool
  total_increase :: real
  labels :: "nat list"
  out_clusters_weights :: "real list"
  in_clusters_weights :: "real list"
  pass_increase :: real

text \<open>
  Both engines start from \<^verbatim>\<open>increase = True\<close>, \<^verbatim>\<open>total_increase = 0\<close>,
  \<^verbatim>\<open>labels = np.arange(n_nodes)\<close> and copies of the node weights.
\<close>

definition initial_state :: "nat \<Rightarrow> real list \<Rightarrow> real list \<Rightarrow> sweep_state" where
  "initial_state n out_node_probs in_node_probs =
     \<lparr>increase = True, total_increase = 0, labels = [0..<n],
      out_clusters_weights = out_node_probs, in_clusters_weights = in_node_probs,
      pass_increase = 0\<rparr>"

subsection \<open>The interpreted engine: \<^verbatim>\<open>GreedyModularity.fit\<close>, branch \<^verbatim>\<open>'python'\<close>\<close>

text \<open>
  The iteration order of a Python set is not fixed by the source. It is a parameter
  \<open>set_order\<close>: applied to a list of cluster ids it yields the distinct ids in the order
  in which the set built from the list is iterated.

  The body of \<^verbatim>\<open>for node in range(graph.n_nodes)\<close>:
\<close>

definition python_node ::
  "(nat list \<Rightarrow> nat list) \<Rightarrow> real \<Rightarrow> real list \<Rightarrow> real list \<Rightarrow> real list \<Rightarrow> csr_matrix \<Rightarrow>
   nat \<Rightarrow> sweep_state \<Rightarrow> sweep_state" where
  "python_node set_order resolution out_node_probs in_node_probs self_loops adjacency node s =
     (let node_cluster = labels s ! node;
          neighbors = map fst (row_entries adjacency ! node);
          weights = map snd (row_entries adjacency ! node);
          neighbors_clusters = map (\<lambda>j. labels s ! j) neighbors;
          unique_clusters = removeAll node_cluster (set_order neighbors_clusters);
          n_clusters = length unique_clusters;
          out_ratio = resolution * out_node_probs ! node;
          in_ratio = resolution * in_node_probs ! node
      in if n_clusters > 0 then
           (let exit_delta =
                  2 * (masked_sum weights neighbors_clusters node_cluster - self_loops ! node)
                  - out_ratio * (in_clusters_weights s ! node_cluster - in_node_probs ! node)
                  - in_ratio * (out_clusters_weights s ! node_cluster - out_node_probs ! node);
                local_delta =
                  map (\<lambda>cluster. - exit_delta +
                         (2 * masked_sum weights neighbors_clusters cluster
                          - out_ratio * in_clusters_weights s ! cluster
                          - in_ratio * out_clusters_weights s ! cluster))
                      unique_clusters;
                delta_argmax = argmax local_delta;
                best_delta = local_delta ! delta_argmax
            in if best_delta > 0 then
                 (let best_cluster = unique_clusters ! delta_argmax;
                      ocw = (out_clusters_weights s)
                              [node_cluster := out_clusters_weights s ! node_cluster
                                                 - out_node_probs ! node];
                      icw = (in_clusters_weights s)
                              [node_cluster := in_clusters_weights s ! node_cluster
                                                 - in_node_probs ! node]
                  in s\<lparr>pass_increase := pass_increase s + best_delta,
                       out_clusters_weights :=
                         ocw[best_cluster := ocw ! best_cluster + out_node_probs ! node],
                       in_clusters_weights :=
                         icw[best_cluster := icw ! best_cluster + in_node_probs ! node],
                       labels := (labels s)[node := best_cluster]\<rparr>)
               else s)
         else s)"

text \<open>The body of \<^verbatim>\<open>while increase\<close>: one sweep over all nodes.\<close>

definition python_pass ::
  "(nat list \<Rightarrow> nat list) \<Rightarrow> real \<Rightarrow> real \<Rightarrow> nat \<Rightarrow> real list \<Rightarrow> real list \<Rightarrow> real list \<Rightarrow>
   csr_matrix \<Rightarrow> sweep_state \<Rightarrow> sweep_state" where
  "python_pass set_order resolution tol n out_node_probs in_node_probs self_loops adjacency s =
     (let s1 = s\<lparr>increase := False, pass_increase := 0\<rparr>;
          s2 = fold (python_node set_order resolution out_node_probs in_node_probs
                       self_loops adjacency) [0..<n] s1;
          s3 = s2\<lparr>total_increase := total_increase s2 + pass_increase s2\<rparr>
      in if pass_increase s3 > tol then s3\<lparr>increase := True\<rparr> else s3)"

subsection \<open>The compiled engine: \<^verbatim>\<open>fit_core\<close>\<close>

text \<open>The body of \<^verbatim>\<open>for node in nodes\<close>:\<close>

definition numba_node ::
  "(nat list \<Rightarrow> nat list) \<Rightarrow> real \<Rightarrow> nat \<Rightarrow> real list \<Rightarrow> real list \<Rightarrow> real list \<Rightarrow> csr_matrix \<Rightarrow>
   nat \<Rightarrow> sweep_state \<Rightarrow> sweep_state" where
  "numba_node set_order resolution n out_node_probs in_node_probs self_loops adjacency node s =
     (let node_cluster = labels s ! node;
          neighbors = map fst (row_entries adjacency ! node);
          weights = map snd (row_entries adjacency ! node);
          neighbor_clusters_weights =
            fold (\<lambda>(neighbor, w) acc.
                    acc[labels s ! neighbor := acc ! (labels s ! neighbor) + w])
                 (zip neighbors weights) (replicate n 0);
          unique_clusters =
            removeAll node_cluster (set_order (map (\<lambda>j. labels s ! j) neighbors));
          out_ratio = resolution * out_node_probs ! node;
          in_ratio = resolution * in_node_probs ! node
      in if length unique_clusters \<noteq> 0 then
           (let exit_delta =
                  2 * (neighbor_clusters_weights ! node_cluster - self_loops ! node)
                  - out_ratio * (in_clusters_weights s ! node_cluster - in_node_probs ! node)
                  - in_ratio * (out_clusters_weights s ! node_cluster - out_node_probs ! node);
                best =
                  fold (\<lambda>cluster (best_delta, best_cluster).
                          (let delta = 2 * neighbor_clusters_weights ! cluster
                                       - out_ratio * in_clusters_weights s ! cluster
                                       - in_ratio * out_clusters_weights s ! cluster;
                               local_delta = delta - exit_delta
                           in if local_delta > best_delta then (local_delta, cluster)
                              else (best_delta, best_cluster)))
                       unique_clusters (0, node_cluster);
                best_delta = fst best;
                best_cluster = snd best
            in if best_delta > 0 then
                 (let ocw = (out_clusters_weights s)
                              [node_cluster := out_clusters_weights s ! node_cluster
                                                 - out_node_probs ! node];
                      icw = (in_clusters_weights s)
                              [node_cluster := in_clusters_weights s ! node_cluster
                                                 - in_node_probs ! node]
                  in s\<lparr>pass_increase := pass_increase s + best_delta,
                       out_clusters_weights :=
                         ocw[best_cluster := ocw ! best_cluster + out_node_probs ! node],
                       in_clusters_weights :=
                         icw[best_cluster := icw ! best_cluster + in_node_probs ! node],
                       labels := (labels s)[node := best_cluster]\<rparr>)
               else s)
         else s)"

definition numba_pass ::
  "(nat list \<Rightarrow> nat list) \<Rightarrow> real \<Rightarrow> real \<Rightarrow> nat \<Rightarrow> real list \<Rightarrow> real list \<Rightarrow> real list \<Rightarrow>
   csr_matrix \<Rightarrow> sweep_state \<Rightarrow> sweep_state" where
  "numba_pass set_order resolution tol n out_node_probs in_node_probs self_loops adjacency s =
     (let s1 = s\<lparr>increase := False, pass_increase := 0\<rparr>;
          s2 = fold (numba_node set_order resolution n out_node_probs in_node_probs
                       self_loops adjacency) [0..<n] s1;
          s3 = s2\<lparr>total_increase := total_increase s2 + pass_increase s2\<rparr>
      in if pass_increase s3 > tol then s3\<lparr>increase := True\<rparr> else s3)"

text \<open>
  \<^verbatim>\<open>fit_core\<close> returns the pair \<^verbatim>\<open>(labels, total_increase)\<close>; the CSR arrays
  \<^verbatim>\<open>data\<close>, \<^verbatim>\<open>indices\<close>, \<^verbatim>\<open>indptr\<close> are passed as one matrix.
\<close>

definition fit_core ::
  "(nat list \<Rightarrow> nat list) \<Rightarrow> real \<Rightarrow> real \<Rightarrow> nat \<Rightarrow> real list \<Rightarrow> real list \<Rightarrow> real list \<Rightarrow>
   csr_matrix \<Rightarrow> (nat list \<times> real) option" where
  "fit_core set_order resolution tol n out_node_probs in_node_probs self_loops adjacency =
     map_option (\<lambda>s. (labels s, total_increase s))
       (while_option increase
          (numba_pass set_order resolution tol n out_node_probs in_node_probs
             self_loops adjacency)
          (initial_state n out_node_probs in_node_probs))"

subsection \<open>\<^verbatim>\<open>GreedyModularity\<close>\<close>

record greedy_modularity =
  resolution :: real
  tol :: real
  engine :: string

text \<open>The attributes \<^verbatim>\<open>score_\<close> and \<^verbatim>\<open>labels_\<close> set by \<^verbatim>\<open>fit\<close>.\<close>

record optimizer_result =
  fit_score :: real
  fit_labels :: "nat list"

text \<open>
  The loop written inline in the branch \<^verbatim>\<open>'python'\<close> (lines 291--341), up to the
  values of \<^verbatim>\<open>labels\<close> and \<^verbatim>\<open>total_increase\<close> when it ends.
\<close>

definition python_core ::
  "(nat list \<Rightarrow> nat list) \<Rightarrow> real \<Rightarrow> real \<Rightarrow> nat \<Rightarrow> real list \<Rightarrow> real list \<Rightarrow> real list \<Rightarrow>
   csr_matrix \<Rightarrow> (nat list \<times> real) option" where
  "python_core set_order resolution_arg tol_arg n out_node_probs in_node_probs self_loops
       adjacency =
     map_option (\<lambda>s. (labels s, total_increase s))
       (while_option increase
          (python_pass set_order resolution_arg tol_arg n out_node_probs in_node_probs
             self_loops adjacency)
          (initial_state n out_node_probs in_node_probs))"

definition GreedyModularity_fit ::
  "(nat list \<Rightarrow> nat list) \<Rightarrow> greedy_modularity \<Rightarrow> aggregate_graph \<Rightarrow>
   (error + optimizer_result) option" where
  "GreedyModularity_fit set_order self graph =
     (let out_node_probs = out_probs graph;
          in_node_probs = (case in_probs graph of Some p \<Rightarrow> p | None \<Rightarrow> out_node_probs)
      in case directed2undirected (norm_adjacency graph) of
           Inl e \<Rightarrow> Some (Inl e)
         | Inr u \<Rightarrow>
            (let adjacency = scale_csr (1 / 2) u;
                 self_loops = diagonal adjacency
             in if engine self = ''python'' then
                  map_option
                    (\<lambda>r. Inr \<lparr>fit_score = snd r, fit_labels = unique_inverse (fst r)\<rparr>)
                    (python_core set_order (resolution self) (tol self) (n_nodes graph)
                       out_node_probs in_node_probs self_loops adjacency)
                else if engine self = ''numba'' then
                  map_option
                    (\<lambda>r. Inr \<lparr>fit_score = snd r, fit_labels = unique_inverse (fst r)\<rparr>)
                    (fit_core set_order (resolution self) (tol self) (n_nodes graph)
                       out_node_probs in_node_probs self_loops adjacency)
                else Some (Inl ValueError)))"

text \<open>
  Modelled from the spec: \<^verbatim>\<open>check_engine\<close> lives in \<^verbatim>\<open>sknetwork.utils.checks\<close>, which
  is not among the sources. The spec selects the engine ``by a runtime flag with availability
  fallback'' and fails when the compiled path is requested but unavailable; the tests expect
  a \<^verbatim>\<open>ValueError\<close> for \<^verbatim>\<open>engine='numba'\<close> without numba.
\<close>

definition check_engine :: "bool \<Rightarrow> string \<Rightarrow> error + string" where
  "check_engine is_numba_available engine_arg =
     (if engine_arg = ''default'' then
        (if is_numba_available then Inr ''numba'' else Inr ''python'')
      else if engine_arg = ''numba'' then
        (if is_numba_available then Inr ''numba'' else Inl ValueError)
      else if engine_arg = ''python'' then Inr ''python''
      else Inl ValueError)"

text \<open>\<^verbatim>\<open>GreedyModularity.__init__\<close> stores its arguments; only the engine is checked.\<close>

definition GreedyModularity_init ::
  "bool \<Rightarrow> real \<Rightarrow> real \<Rightarrow> string \<Rightarrow> error + greedy_modularity" where
  "GreedyModularity_init is_numba_available resolution_arg tol_arg engine_arg =
     (case check_engine is_numba_available engine_arg of
        Inl e \<Rightarrow> Inl e
      | Inr checked \<Rightarrow>
          Inr \<lparr>resolution = resolution_arg, tol = tol_arg, engine = checked\<rparr>)"

subsection \<open>\<^verbatim>\<open>AggregateGraph.__init__\<close>\<close>

datatype weights = Named string | Vector "real list"

text \<open>
  Modelled from the spec: \<^verbatim>\<open>check_probs\<close> lives in \<^verbatim>\<open>sknetwork.utils.checks\<close>, which is
  not among the sources. The spec gives the weighting policies: \<^verbatim>\<open>'degree'\<close> is proportional
  to the row sums, \<^verbatim>\<open>'uniform'\<close> gives equal mass to every node, and an explicit vector
  must be non-negative and is normalised to sum to 1. A vector of the wrong length, a
  negative entry and an unknown policy are rejected; a zero sum leaves nothing to
  normalise by.
\<close>

definition normalize_weights :: "real list \<Rightarrow> error + real list" where
  "normalize_weights w =
     (if \<exists>x \<in> set w. x < 0 then Inl ValueError
      else if sum_list w = 0 then Inl ZeroDivision
      else Inr (map (\<lambda>x. x / sum_list w) w))"

definition check_probs :: "weights \<Rightarrow> csr_matrix \<Rightarrow> error + real list" where
  "check_probs w adjacency =
     (case w of
        Vector v \<Rightarrow>
          if length v \<noteq> n_row adjacency then Inl ValueError else normalize_weights v
      | Named s \<Rightarrow>
          if s = ''degree'' then
            normalize_weights
              (map (\<lambda>i. sum_list (map (\<lambda>j. coeff adjacency i j) [0..<n_col adjacency]))
                 [0..<n_row adjacency])
          else if s = ''uniform'' then normalize_weights (replicate (n_row adjacency) 1)
          else Inl ValueError)"

text \<open>
  \<^verbatim>\<open>adjacency / adjacency.data.sum()\<close>. The source divides without a guard, and the
  division of a sparse matrix by a numpy scalar raises nothing. With a zero sum the factor
  \<^verbatim>\<open>1 / 0\<close> is infinite in floating point: a matrix without stored entries comes out
  unchanged, and stored entries become infinities or NaNs, which the exact model does not
  have. Here the factor is then \<open>1 / 0 = 0\<close>, so that the model agrees with the code on
  every matrix with a non-zero sum and on every matrix without stored entries.
\<close>

definition normalize_adjacency :: "csr_matrix \<Rightarrow> csr_matrix" where
  "normalize_adjacency adjacency = scale_csr (1 / data_sum adjacency) adjacency"

definition AggregateGraph_init ::
  "csr_matrix \<Rightarrow> weights \<Rightarrow> weights option \<Rightarrow> error + aggregate_graph" where
  "AggregateGraph_init adjacency out_weights in_weights =
     (let na = normalize_adjacency adjacency
      in case check_probs out_weights adjacency of
            Inl e \<Rightarrow> Inl e
          | Inr op \<Rightarrow>
             (case in_weights of
                None \<Rightarrow>
                  Inr \<lparr>n_nodes = n_row adjacency, norm_adjacency = na,
                       out_probs = op, in_probs = None\<rparr>
              | Some iw \<Rightarrow>
                 (case check_probs iw (transpose_csr adjacency) of
                    Inl e \<Rightarrow> Inl e
                  | Inr ip \<Rightarrow>
                      Inr \<lparr>n_nodes = n_row adjacency, norm_adjacency = na,
                           out_probs = op, in_probs = Some ip\<rparr>)))"

subsection \<open>\<^verbatim>\<open>AggregateGraph.aggregate\<close>\<close>

text \<open>A membership argument is either an array of labels or a sparse matrix.\<close>

datatype membership = Labels "nat list" | Matrix csr_matrix

text \<open>\<^verbatim>\<open>if type(m) == np.ndarray: m = membership_matrix(m)\<close>\<close>

definition as_matrix :: "membership \<Rightarrow> error + csr_matrix" where
  "as_matrix m = (case m of Labels l \<Rightarrow> membership_matrix l | Matrix a \<Rightarrow> Inr a)"

text \<open>
  The method mutates the graph field by field. The model returns the state of the graph
  when the call ends together with the exception, if one was raised, so that a failure
  after the first assignment shows the partly updated graph.
\<close>

definition aggregate_out ::
  "aggregate_graph \<Rightarrow> csr_matrix \<Rightarrow> aggregate_graph \<times> error option" where
  "aggregate_out self row_membership =
     (case dot_vec (transpose_csr row_membership) (out_probs self) of
        Inl e \<Rightarrow> (self, Some e)
      | Inr op \<Rightarrow>
          (self\<lparr>out_probs := op, n_nodes := n_row (norm_adjacency self)\<rparr>, None))"

definition aggregate ::
  "aggregate_graph \<Rightarrow> membership \<Rightarrow> membership option \<Rightarrow> aggregate_graph \<times> error option" where
  "aggregate self row_membership col_membership =
     (case as_matrix row_membership of
        Inl e \<Rightarrow> (self, Some e)
      | Inr rm \<Rightarrow>
         (case col_membership of
            Some c \<Rightarrow>
             (case as_matrix c of
                Inl e \<Rightarrow> (self, Some e)
              | Inr cm \<Rightarrow>
                 (case dot_csr (norm_adjacency self) cm of
                    Inl e \<Rightarrow> (self, Some e)
                  | Inr t \<Rightarrow>
                     (case dot_csr (transpose_csr rm) t of
                        Inl e \<Rightarrow> (self, Some e)
                      | Inr na \<Rightarrow>
                         (let self1 = self\<lparr>norm_adjacency := na\<rparr>
                          in case in_probs self1 of
                               None \<Rightarrow> (self1, Some TypeError)
                             | Some ip \<Rightarrow>
                                (case dot_vec (transpose_csr cm) ip of
                                   Inl e \<Rightarrow> (self1, Some e)
                                 | Inr ip' \<Rightarrow>
                                     aggregate_out (self1\<lparr>in_probs := Some ip'\<rparr>) rm)))))
          | None \<Rightarrow>
             (case dot_csr (norm_adjacency self) rm of
                Inl e \<Rightarrow> (self, Some e)
              | Inr t \<Rightarrow>
                 (case dot_csr (transpose_csr rm) t of
                    Inl e \<Rightarrow> (self, Some e)
                  | Inr na \<Rightarrow>
                     (let self1 = self\<lparr>norm_adjacency := na\<rparr>
                      in case in_probs self1 of
                           None \<Rightarrow> aggregate_out self1 rm
                         | Some ip \<Rightarrow>
                            (case dot_vec (transpose_csr rm) ip of
                               Inl e \<Rightarrow> (self1, Some e)
                             | Inr ip' \<Rightarrow>
                                 aggregate_out (self1\<lparr>in_probs := Some ip'\<rparr>) rm))))))"

subsection \<open>Helpers of the driver\<close>

text \<open>
  Modelled from the spec: \<^verbatim>\<open>bipartite2directed\<close> and \<^verbatim>\<open>bipartite2undirected\<close> live in
  \<^verbatim>\<open>sknetwork.utils.adjacency_formats\<close>, which is not among the sources. The spec turns a
  rectangular input into a graph over the disjoint union of row nodes and column nodes:
  row-to-column edges carry the original weights, column-to-row edges are zero (directed)
  or mirrored (undirected).
\<close>

definition bipartite2directed :: "csr_matrix \<Rightarrow> csr_matrix" where
  "bipartite2directed biadjacency =
     (let n1 = n_row biadjacency; n2 = n_col biadjacency
      in csr_of (n1 + n2) (n1 + n2)
           (\<lambda>i j. if i < n1 \<and> n1 \<le> j then coeff biadjacency i (j - n1) else 0))"

definition bipartite2undirected :: "csr_matrix \<Rightarrow> csr_matrix" where
  "bipartite2undirected biadjacency =
     (let n1 = n_row biadjacency; n2 = n_col biadjacency
      in csr_of (n1 + n2) (n1 + n2)
           (\<lambda>i j. if i < n1 \<and> n1 \<le> j then coeff biadjacency i (j - n1)
                  else if n1 \<le> i \<and> j < n1 then coeff biadjacency j (i - n1)
                  else 0))"

text \<open>
  Modelled from the spec: \<^verbatim>\<open>reindex_clusters\<close> lives in
  \<^verbatim>\<open>sknetwork.clustering.post_processing\<close>, which is not among the sources. The spec
  re-indexes the cluster ids in descending order of cluster size, ties broken by the lowest
  original id.
\<close>

definition reindex_clusters :: "nat list \<Rightarrow> nat list" where
  "reindex_clusters ls =
     (let order = sort_key (\<lambda>c. - int (count_list ls c)) (sort (remdups ls))
      in map (\<lambda>l. length (takeWhile (\<lambda>x. x \<noteq> l) order)) ls)"

text \<open>\<^verbatim>\<open>adjacency[nodes, :].tocsc()[:, nodes].tocsr()\<close>\<close>

definition permute_nodes :: "nat list \<Rightarrow> csr_matrix \<Rightarrow> csr_matrix" where
  "permute_nodes nodes adjacency =
     csr_of (length nodes) (length nodes) (\<lambda>i j. coeff adjacency (nodes ! i) (nodes ! j))"

text \<open>
  \<^verbatim>\<open>reverse = np.empty(nodes.size); reverse[nodes] = np.arange(nodes.size)\<close>; the
  uninitialised array is filled with zeros here.
\<close>

definition reverse_permutation :: "nat list \<Rightarrow> nat list" where
  "reverse_permutation nodes =
     fold (\<lambda>(node, k) reverse. reverse[node := k]) (zip nodes [0..<length nodes])
          (replicate (length nodes) 0)"

subsection \<open>\<^verbatim>\<open>Louvain\<close>\<close>

text \<open>
  The fields set by \<^verbatim>\<open>Louvain.__init__\<close>; the algorithm is a \<^verbatim>\<open>GreedyModularity\<close>
  instance, which is what \<^verbatim>\<open>algorithm='default'\<close> builds. The permutation drawn from
  \<^verbatim>\<open>random_state\<close> is an argument of \<open>Louvain_fit\<close>; printing is left out.
\<close>

record louvain =
  algorithm :: greedy_modularity
  agg_tol :: real
  max_agg_iter :: int
  shuffle_nodes :: bool

text \<open>
  The attributes \<^verbatim>\<open>labels_\<close>, \<^verbatim>\<open>secondary_labels_\<close>, \<^verbatim>\<open>iteration_count_\<close> and
  \<^verbatim>\<open>aggregate_graph_\<close> set by \<^verbatim>\<open>Louvain.fit\<close>.
\<close>

record louvain_result =
  out_labels :: "nat list"
  out_secondary_labels :: "nat list option"
  out_iteration_count :: int
  out_aggregate_graph :: csr_matrix

text \<open>
  Lines 481--504: the branch on the shape and the flags yields the adjacency used and the
  two weight arguments passed to \<^verbatim>\<open>AggregateGraph\<close>.
\<close>

definition louvain_preprocess ::
  "csr_matrix \<Rightarrow> weights \<Rightarrow> weights option \<Rightarrow> bool \<Rightarrow> bool \<Rightarrow>
   error + (csr_matrix \<times> weights \<times> weights)" where
  "louvain_preprocess adjacency weights_arg secondary_weights force_undirected
       force_biadjacency =
     (let n1 = n_row adjacency; n2 = n_col adjacency
      in if n1 \<noteq> n2 \<or> force_biadjacency then
           (if force_undirected then
              (let undirected = bipartite2undirected adjacency
               in case check_probs weights_arg undirected of
                    Inl e \<Rightarrow> Inl e
                  | Inr out_weights \<Rightarrow> Inr (undirected, Vector out_weights, Vector out_weights))
            else
              (case check_probs weights_arg adjacency of
                 Inl e \<Rightarrow> Inl e
               | Inr primary_weights \<Rightarrow>
                  (let secondary =
                         (case secondary_weights of
                            Some w \<Rightarrow> w
                          | None \<Rightarrow>
                             (case weights_arg of
                                Named s \<Rightarrow> Named s
                              | Vector v \<Rightarrow> Named ''degree''))
                   in case check_probs secondary (transpose_csr adjacency) of
                        Inl e \<Rightarrow> Inl e
                      | Inr sw \<Rightarrow>
                          Inr (bipartite2directed adjacency,
                               Vector (primary_weights @ replicate n2 0),
                               Vector (replicate n1 0 @ sw)))))
         else
           (if force_undirected then
              (case directed2undirected adjacency of
                 Inl e \<Rightarrow> Inl e
               | Inr undirected \<Rightarrow> Inr (undirected, weights_arg, weights_arg))
            else Inr (adjacency, weights_arg, weights_arg)))"

text \<open>
  The loop \<^verbatim>\<open>while increase\<close> of lines 519--537, entered with the current graph, the
  running membership and the iteration count. It ends when the score is at most
  \<^verbatim>\<open>agg_tol\<close> (the flag is cleared), at the \<^verbatim>\<open>break\<close> for a single node and at the
  \<^verbatim>\<open>break\<close> for the iteration cap.
\<close>

partial_function (option) louvain_loop ::
  "(nat list \<Rightarrow> nat list) \<Rightarrow> louvain \<Rightarrow> aggregate_graph \<Rightarrow> csr_matrix \<Rightarrow> int \<Rightarrow>
   (error + aggregate_graph \<times> csr_matrix \<times> int) option" where
  "louvain_loop set_order self graph membership iteration_count =
     (case GreedyModularity_fit set_order (algorithm self) graph of
        None \<Rightarrow> None
      | Some (Inl e) \<Rightarrow> Some (Inl e)
      | Some (Inr fitted) \<Rightarrow>
          if fit_score fitted \<le> agg_tol self then
            Some (Inr (graph, membership, iteration_count + 1))
          else
            (case membership_matrix (fit_labels fitted) of
               Inl e \<Rightarrow> Some (Inl e)
             | Inr agg_membership \<Rightarrow>
                (case dot_csr membership agg_membership of
                   Inl e \<Rightarrow> Some (Inl e)
                 | Inr membership' \<Rightarrow>
                    (case aggregate graph (Matrix agg_membership) None of
                       (graph', Some e) \<Rightarrow> Some (Inl e)
                     | (graph', None) \<Rightarrow>
                         if n_nodes graph' = 1 then
                           Some (Inr (graph', membership', iteration_count + 1))
                         else if iteration_count + 1 = max_agg_iter self then
                           Some (Inr (graph', membership', iteration_count + 1))
                         else
                           louvain_loop set_order self graph' membership'
                             (iteration_count + 1)))))"

declare louvain_loop.simps [code]

definition Louvain_fit ::
  "(nat list \<Rightarrow> nat list) \<Rightarrow> nat list \<Rightarrow> louvain \<Rightarrow> csr_matrix \<Rightarrow> weights \<Rightarrow> weights option \<Rightarrow>
   bool \<Rightarrow> bool \<Rightarrow> bool \<Rightarrow> (error + louvain_result) option" where
  "Louvain_fit set_order permutation self adjacency0 weights_arg secondary_weights
       force_undirected force_biadjacency sorted_cluster =
     (let n1 = n_row adjacency0
      in case louvain_preprocess adjacency0 weights_arg secondary_weights force_undirected
                force_biadjacency of
           Inl e \<Rightarrow> Some (Inl e)
         | Inr (adjacency1, out_weights, in_weights) \<Rightarrow>
            (let nodes = (if shuffle_nodes self then permutation
                          else [0..<n_row adjacency1]);
                 adjacency = (if shuffle_nodes self then permute_nodes nodes adjacency1
                              else adjacency1);
                 n = n_row adjacency
             in case AggregateGraph_init adjacency out_weights (Some in_weights) of
                  Inl e \<Rightarrow> Some (Inl e)
                | Inr graph0 \<Rightarrow>
                   (case louvain_loop set_order self graph0 (identity_csr n) 0 of
                      None \<Rightarrow> None
                    | Some (Inl e) \<Rightarrow> Some (Inl e)
                    | Some (Inr (graph, membership, iteration_count)) \<Rightarrow>
                       (let ls0 = indices membership;
                            ls1 = (if shuffle_nodes self
                                   then map (\<lambda>r. ls0 ! r) (reverse_permutation nodes)
                                   else ls0);
                            ls2 = (if sorted_cluster then reindex_clusters ls1 else ls1)
                        in Some (Inr
                             \<lparr>out_labels = (if n > n1 then take n1 ls2 else ls2),
                              out_secondary_labels = (if n > n1 then Some (drop n1 ls2) else None),
                              out_iteration_count = iteration_count,
                              out_aggregate_graph =
                                scale_csr (data_sum adjacency) (norm_adjacency graph)\<rparr>)))))"

section \<open>Notions used in the statements and proofs\<close>

text \<open>What is assumed of the iteration order of a set: the distinct elements, each once.\<close>

definition is_set_order :: "(nat list \<Rightarrow> nat list) \<Rightarrow> bool" where
  "is_set_order set_order \<longleftrightarrow> (\<forall>xs. set (set_order xs) = set xs \<and> distinct (set_order xs))"

text \<open>
  The invariant of an \<^verbatim>\<open>AggregateGraph\<close>: the weight vectors follow the rows and columns of
  the adjacency.
\<close>

definition wf_graph :: "aggregate_graph \<Rightarrow> bool" where
  "wf_graph g \<longleftrightarrow>
     wf_csr (norm_adjacency g) \<and> n_row (norm_adjacency g) = n_nodes g \<and>
     length (out_probs g) = n_nodes g \<and>
     (case in_probs g of None \<Rightarrow> True | Some p \<Rightarrow> length p = n_col (norm_adjacency g))"

text \<open>The weight that the stored entries \<open>row\<close> of a node send into cluster \<open>c\<close>.\<close>

definition row_mass :: "(nat \<times> real) list \<Rightarrow> nat list \<Rightarrow> nat \<Rightarrow> real" where
  "row_mass row l c = sum_list (map snd (filter (\<lambda>e. l ! fst e = c) row))"

text \<open>The scores of a node, over the stored entries \<open>row\<close> of its row.\<close>

definition exit_delta_of ::
  "real \<Rightarrow> real list \<Rightarrow> real list \<Rightarrow> real list \<Rightarrow> (nat \<times> real) list \<Rightarrow> nat \<Rightarrow> sweep_state \<Rightarrow>
   real" where
  "exit_delta_of res onp inp sl row node s =
     2 * (row_mass row (labels s) (labels s ! node) - sl ! node)
     - res * onp ! node * (in_clusters_weights s ! (labels s ! node) - inp ! node)
     - res * inp ! node * (out_clusters_weights s ! (labels s ! node) - onp ! node)"

definition delta_of ::
  "real \<Rightarrow> real list \<Rightarrow> real list \<Rightarrow> (nat \<times> real) list \<Rightarrow> nat \<Rightarrow> sweep_state \<Rightarrow> nat \<Rightarrow> real" where
  "delta_of res onp inp row node s c =
     2 * row_mass row (labels s) c
     - res * onp ! node * in_clusters_weights s ! c
     - res * inp ! node * out_clusters_weights s ! c"

text \<open>The state after moving \<open>node\<close> to cluster \<open>b\<close> with gain \<open>d\<close>.\<close>

definition move_node ::
  "real list \<Rightarrow> real list \<Rightarrow> nat \<Rightarrow> nat \<Rightarrow> real \<Rightarrow> sweep_state \<Rightarrow> sweep_state" where
  "move_node onp inp node b d s =
     (let a = labels s ! node;
          ocw = (out_clusters_weights s)[a := out_clusters_weights s ! a - onp ! node];
          icw = (in_clusters_weights s)[a := in_clusters_weights s ! a - inp ! node]
      in s\<lparr>pass_increase := pass_increase s + d,
           out_clusters_weights := ocw[b := ocw ! b + onp ! node],
           in_clusters_weights := icw[b := icw ! b + inp ! node],
           labels := (labels s)[node := b]\<rparr>)"

text \<open>The candidate clusters of a node, in the order in which they are scanned.\<close>

definition candidates ::
  "(nat list \<Rightarrow> nat list) \<Rightarrow> (nat \<times> real) list \<Rightarrow> nat \<Rightarrow> sweep_state \<Rightarrow> nat list" where
  "candidates set_order row node s =
     removeAll (labels s ! node) (set_order (map (\<lambda>e. labels s ! fst e) row))"

text \<open>The total weight \<open>w\<close> of the nodes labelled \<open>c\<close>.\<close>

definition cluster_mass :: "real list \<Rightarrow> nat list \<Rightarrow> nat \<Rightarrow> real" where
  "cluster_mass w l c = (\<Sum>j<length l. if l ! j = c then w ! j else 0)"

text \<open>
  The invariant of the sweeps over \<open>n\<close> nodes: labels are node indices, and the two
  accumulators hold the mass of every cluster.
\<close>

definition state_ok :: "nat \<Rightarrow> real list \<Rightarrow> real list \<Rightarrow> sweep_state \<Rightarrow> bool" where
  "state_ok n onp inp s \<longleftrightarrow>
     length (labels s) = n \<and> (\<forall>c \<in> set (labels s). c < n) \<and>
     length (out_clusters_weights s) = n \<and> length (in_clusters_weights s) = n \<and>
     (\<forall>c<n. out_clusters_weights s ! c = cluster_mass onp (labels s) c) \<and>
     (\<forall>c<n. in_clusters_weights s ! c = cluster_mass inp (labels s) c)"

text \<open>A symmetric square matrix with its diagonal, as the optimizer builds them.\<close>

definition proxy_ok :: "nat \<Rightarrow> csr_matrix \<Rightarrow> real list \<Rightarrow> bool" where
  "proxy_ok n adj sl \<longleftrightarrow>
     wf_csr adj \<and> n_row adj = n \<and> n_col adj = n \<and>
     (\<forall>i<n. \<forall>j<n. coeff adj i j = coeff adj j i) \<and>
     length sl = n \<and> (\<forall>i<n. sl ! i = coeff adj i i)"

text \<open>
  The objective that the sweeps increase: the weight inside clusters minus the
  null-model term, summed over all ordered pairs of nodes with the same label.
\<close>

definition objective :: "real \<Rightarrow> real list \<Rightarrow> real list \<Rightarrow> csr_matrix \<Rightarrow> nat list \<Rightarrow> real" where
  "objective res onp inp adj l =
     (\<Sum>i<length l. \<Sum>j<length l.
        if l ! i = l ! j then coeff adj i j - res * onp ! i * inp ! j else 0)"

text \<open>
  The values of \<^verbatim>\<open>labels\<close> and \<^verbatim>\<open>total_increase\<close> that \<^verbatim>\<open>GreedyModularity.fit\<close> holds
  when its sweeps have ended, before the labels are renumbered.
\<close>

definition sweep_result ::
  "(nat list \<Rightarrow> nat list) \<Rightarrow> greedy_modularity \<Rightarrow> aggregate_graph \<Rightarrow>
   (error + nat list \<times> real) option" where
  "sweep_result set_order self graph =
     (let out_node_probs = out_probs graph;
          in_node_probs = (case in_probs graph of Some p \<Rightarrow> p | None \<Rightarrow> out_node_probs)
      in case directed2undirected (norm_adjacency graph) of
           Inl e \<Rightarrow> Some (Inl e)
         | Inr u \<Rightarrow>
            (let adjacency = scale_csr (1 / 2) u;
                 self_loops = diagonal adjacency
             in if engine self = ''python'' then
                  map_option Inr
                    (python_core set_order (resolution self) (tol self) (n_nodes graph)
                       out_node_probs in_node_probs self_loops adjacency)
                else if engine self = ''numba'' then
                  map_option Inr
                    (fit_core set_order (resolution self) (tol self) (n_nodes graph)
                       out_node_probs in_node_probs self_loops adjacency)
                else Some (Inl ValueError)))"

text \<open>
  Renumbering in first-occurrence order, as the specification words it: the label of node 0
  becomes 0, the next distinct label met in ascending node order becomes 1, and so on.
\<close>

definition first_occurrence_renumber :: "nat list \<Rightarrow> nat list" where
  "first_occurrence_renumber ls =
     (let seen = rev (remdups (rev ls))
      in map (\<lambda>l. length (takeWhile (\<lambda>x. x \<noteq> l) seen)) ls)"

text \<open>Concrete inputs used in the examples.\<close>

definition ascending_order :: "nat list \<Rightarrow> nat list" where
  "ascending_order xs = sort (remdups xs)"

text \<open>Three nodes: an edge between nodes 0 and 2, a self-loop at node 1.\<close>

definition edge_and_loop :: aggregate_graph where
  "edge_and_loop =
     \<lparr>n_nodes = 3,
      norm_adjacency =
        \<lparr>n_row = 3, n_col = 3,
         row_entries = [[(2, 1 / 3)], [(1, 1 / 3)], [(0, 1 / 3)]]\<rparr>,
      out_probs = [1 / 3, 1 / 3, 1 / 3],
      in_probs = Some [1 / 3, 1 / 3, 1 / 3]\<rparr>"

text \<open>The optimizer with the default parameters and the interpreted engine.\<close>

definition python_optimizer :: greedy_modularity where
  "python_optimizer = \<lparr>resolution = 1, tol = 1 / 1000, engine = ''python''\<rparr>"

text \<open>
  What a stretch of node visits achieves, from state \<open>s\<close> to state \<open>s'\<close>: the invariant
  holds again, the gain of the pass has grown by exactly the growth of the objective, the
  loop flag and the total are untouched, and the labels changed only with a positive gain,
  in which case two nodes share a label.
\<close>

definition progress ::
  "nat \<Rightarrow> real \<Rightarrow> real list \<Rightarrow> real list \<Rightarrow> csr_matrix \<Rightarrow> sweep_state \<Rightarrow> sweep_state \<Rightarrow> bool" where
  "progress n res onp inp adj s s' \<longleftrightarrow>
     state_ok n onp inp s' \<and>
     pass_increase s \<le> pass_increase s' \<and>
     objective res onp inp adj (labels s')
       = objective res onp inp adj (labels s) + (pass_increase s' - pass_increase s) \<and>
     increase s' = increase s \<and> total_increase s' = total_increase s \<and>
     (pass_increase s' = pass_increase s \<longrightarrow> labels s' = labels s) \<and>
     (pass_increase s < pass_increase s' \<longrightarrow> \<not> distinct (labels s'))"

text \<open>
  The body of the loop that \<^verbatim>\<open>GreedyModularity.fit\<close> runs for a graph, given the proxy
  adjacency it has built, and the state of its local variables after \<open>k\<close> sweeps.
\<close>

definition sweep_of ::
  "(nat list \<Rightarrow> nat list) \<Rightarrow> greedy_modularity \<Rightarrow> aggregate_graph \<Rightarrow> csr_matrix \<Rightarrow>
   sweep_state \<Rightarrow> sweep_state" where
  "sweep_of set_order self graph adjacency =
     (let out_node_probs = out_probs graph;
          in_node_probs = (case in_probs graph of Some p \<Rightarrow> p | None \<Rightarrow> out_node_probs)
      in if engine self = ''numba''
         then numba_pass set_order (resolution self) (tol self) (n_nodes graph)
                out_node_probs in_node_probs (diagonal adjacency) adjacency
         else python_pass set_order (resolution self) (tol self) (n_nodes graph)
                out_node_probs in_node_probs (diagonal adjacency) adjacency)"

definition state_after ::
  "(nat list \<Rightarrow> nat list) \<Rightarrow> greedy_modularity \<Rightarrow> aggregate_graph \<Rightarrow> csr_matrix \<Rightarrow> nat \<Rightarrow>
   sweep_state" where
  "state_after set_order self graph adjacency k =
     (sweep_of set_order self graph adjacency ^^ k)
       (initial_state (n_nodes graph) (out_probs graph)
          (case in_probs graph of Some p \<Rightarrow> p | None \<Rightarrow> out_probs graph))"

text \<open>The optimizer with the default parameters and the compiled engine.\<close>

definition numba_optimizer :: greedy_modularity where
  "numba_optimizer = \<lparr>resolution = 1, tol = 1 / 1000, engine = ''numba''\<rparr>"

text \<open>The sum of the normalised adjacency of \<open>edge_and_loop\<close> and its transpose.\<close>

definition edge_and_loop_sum :: csr_matrix where
  "edge_and_loop_sum =
     \<lparr>n_row = 3, n_col = 3, row_entries = [[(2, 2 / 3)], [(1, 2 / 3)], [(0, 2 / 3)]]\<rparr>"

text \<open>
  A cluster assignment for \<open>n\<close> nodes that gives every node exactly one cluster: an array
  of \<open>n\<close> labels, or a binary matrix with \<open>n\<close> rows that stores a single \<open>1\<close> in every row.
\<close>

definition one_per_row :: "csr_matrix \<Rightarrow> bool" where
  "one_per_row m \<longleftrightarrow> wf_csr m \<and> (\<forall>r \<in> set (row_entries m). \<exists>c. r = [(c, 1)])"

definition assigns :: "membership \<Rightarrow> nat \<Rightarrow> bool" where
  "assigns mb n \<longleftrightarrow>
     (case mb of
        Labels l \<Rightarrow> length l = n \<and> 0 < n
      | Matrix m \<Rightarrow> n_row m = n \<and> one_per_row m)"

text \<open>The number of nodes that a membership argument covers.\<close>

definition n_assigned :: "membership \<Rightarrow> nat" where
  "n_assigned mb = (case mb of Labels l \<Rightarrow> length l | Matrix m \<Rightarrow> n_row m)"

text \<open>A membership matrix for three nodes that leaves node 1 without a cluster.\<close>

definition node_1_unassigned :: csr_matrix where
  "node_1_unassigned = \<lparr>n_row = 3, n_col = 2, row_entries = [[(1, 1)], [], [(1, 1)]]\<rparr>"

text \<open>A triangle with unit weights, and a matrix on three nodes without stored entries.\<close>

definition triangle :: csr_matrix where
  "triangle =
     \<lparr>n_row = 3, n_col = 3,
      row_entries = [[(1, 1), (2, 1)], [(0, 1), (2, 1)], [(0, 1), (1, 1)]]\<rparr>"

definition no_edges :: csr_matrix where
  "no_edges = \<lparr>n_row = 3, n_col = 3, row_entries = [[], [], []]\<rparr>"

text \<open>
  The quantities of the specification's move scores, in its words. The proxy adjacency is
  \<open>\<onehalf>\<cdot>(adjacency + adjacency\<^sup>T)\<close>; \<open>edge_mass i c\<close> is the proxy weight from node \<open>i\<close> to the
  nodes of cluster \<open>c\<close>; \<open>self_loop i\<close> is the proxy weight from \<open>i\<close> to itself; the
  in-mass of a graph without in-weights is its out-mass.
\<close>

definition proxy :: "aggregate_graph \<Rightarrow> nat \<Rightarrow> nat \<Rightarrow> real" where
  "proxy g i j = (coeff (norm_adjacency g) i j + coeff (norm_adjacency g) j i) / 2"

definition out_mass :: "aggregate_graph \<Rightarrow> nat \<Rightarrow> real" where
  "out_mass g i = out_probs g ! i"

definition in_mass :: "aggregate_graph \<Rightarrow> nat \<Rightarrow> real" where
  "in_mass g i = (case in_probs g of Some p \<Rightarrow> p | None \<Rightarrow> out_probs g) ! i"

definition edge_mass :: "aggregate_graph \<Rightarrow> sweep_state \<Rightarrow> nat \<Rightarrow> nat \<Rightarrow> real" where
  "edge_mass g s i c =
     sum_list (map (\<lambda>j. if labels s ! j = c then proxy g i j else 0) [0..<n_nodes g])"

definition self_loop :: "aggregate_graph \<Rightarrow> nat \<Rightarrow> real" where
  "self_loop g i = proxy g i i"

definition exit_score :: "real \<Rightarrow> aggregate_graph \<Rightarrow> sweep_state \<Rightarrow> nat \<Rightarrow> real" where
  "exit_score res g s i =
     2 * (edge_mass g s i (labels s ! i) - self_loop g i)
     - res * out_mass g i * (in_clusters_weights s ! (labels s ! i) - in_mass g i)
     - res * in_mass g i * (out_clusters_weights s ! (labels s ! i) - out_mass g i)"

definition candidate_score ::
  "real \<Rightarrow> aggregate_graph \<Rightarrow> sweep_state \<Rightarrow> nat \<Rightarrow> nat \<Rightarrow> real" where
  "candidate_score res g s i b =
     2 * edge_mass g s i b
     - res * out_mass g i * in_clusters_weights s ! b
     - res * in_mass g i * out_clusters_weights s ! b"

definition gain :: "real \<Rightarrow> aggregate_graph \<Rightarrow> sweep_state \<Rightarrow> nat \<Rightarrow> nat \<Rightarrow> real" where
  "gain res g s i b = candidate_score res g s i b - exit_score res g s i"

text \<open>The clusters of the neighbours of node \<open>i\<close> other than its own cluster.\<close>

definition neighbor_clusters :: "aggregate_graph \<Rightarrow> sweep_state \<Rightarrow> nat \<Rightarrow> nat set" where
  "neighbor_clusters g s i =
     set (map (\<lambda>j. labels s ! j) (filter (\<lambda>j. proxy g i j \<noteq> 0) [0..<n_nodes g]))
       - {labels s ! i}"

text \<open>The state in which node \<open>i\<close> has been moved from its cluster to cluster \<open>b\<close>.\<close>

definition moved :: "real \<Rightarrow> aggregate_graph \<Rightarrow> sweep_state \<Rightarrow> nat \<Rightarrow> nat \<Rightarrow> sweep_state" where
  "moved res g s i b =
     s\<lparr>pass_increase := pass_increase s + gain res g s i b,
       out_clusters_weights :=
         (out_clusters_weights s)
           [labels s ! i := out_clusters_weights s ! (labels s ! i) - out_mass g i,
            b := out_clusters_weights s ! b + out_mass g i],
       in_clusters_weights :=
         (in_clusters_weights s)
           [labels s ! i := in_clusters_weights s ! (labels s ! i) - in_mass g i,
            b := in_clusters_weights s ! b + in_mass g i],
       labels := (labels s)[i := b]\<rparr>"

text \<open>The state in which the optimizer starts on \<open>edge_and_loop\<close>.\<close>

definition edge_and_loop_start :: sweep_state where
  "edge_and_loop_start = initial_state 3 [1 / 3, 1 / 3, 1 / 3] [1 / 3, 1 / 3, 1 / 3]"

text \<open>
  One pass through the body of the driver's loop, without the tests that end the loop: the
  optimizer's result, the graph and the membership after the pass, and the iteration count.
\<close>

definition loop_body ::
  "(nat list \<Rightarrow> nat list) \<Rightarrow> louvain \<Rightarrow> aggregate_graph \<Rightarrow> csr_matrix \<Rightarrow> int \<Rightarrow>
   (error + optimizer_result \<times> aggregate_graph \<times> csr_matrix \<times> int) option" where
  "loop_body set_order self graph membership iteration_count =
     (case GreedyModularity_fit set_order (algorithm self) graph of
        None \<Rightarrow> None
      | Some (Inl e) \<Rightarrow> Some (Inl e)
      | Some (Inr fitted) \<Rightarrow>
          if fit_score fitted \<le> agg_tol self then
            Some (Inr (fitted, graph, membership, iteration_count + 1))
          else
            (case membership_matrix (fit_labels fitted) of
               Inl e \<Rightarrow> Some (Inl e)
             | Inr agg_membership \<Rightarrow>
                (case dot_csr membership agg_membership of
                   Inl e \<Rightarrow> Some (Inl e)
                 | Inr membership' \<Rightarrow>
                    (case aggregate graph (Matrix agg_membership) None of
                       (graph', Some e) \<Rightarrow> Some (Inl e)
                     | (graph', None) \<Rightarrow>
                         Some (Inr (fitted, graph', membership', iteration_count + 1))))))"

text \<open>
  The three conditions of the specification under which the loop stops after a pass: the
  score is at or below the aggregation tolerance, the aggregated graph has a single node,
  or the iteration count has reached the cap.
\<close>

definition stop_test :: "louvain \<Rightarrow> optimizer_result \<Rightarrow> aggregate_graph \<Rightarrow> int \<Rightarrow> bool" where
  "stop_test self fitted graph iteration_count \<longleftrightarrow>
     fit_score fitted \<le> agg_tol self \<or> n_nodes graph = 1 \<or>
     iteration_count = max_agg_iter self"

text \<open>A pass after which none of the three conditions holds leads to the next pass.\<close>

definition continues ::
  "(nat list \<Rightarrow> nat list) \<Rightarrow> louvain \<Rightarrow> aggregate_graph \<times> csr_matrix \<times> int \<Rightarrow>
   aggregate_graph \<times> csr_matrix \<times> int \<Rightarrow> bool" where
  "continues set_order self st st' \<longleftrightarrow>
     (\<exists>fitted. loop_body set_order self (fst st) (fst (snd st)) (snd (snd st))
                  = Some (Inr (fitted, st')) \<and>
               \<not> stop_test self fitted (fst st') (snd (snd st')))"

text \<open>
  Every call of the optimizer that the loop makes, entered in the given state, returns.
\<close>

definition optimizer_returns ::
  "(nat list \<Rightarrow> nat list) \<Rightarrow> louvain \<Rightarrow> aggregate_graph \<Rightarrow> csr_matrix \<Rightarrow> int \<Rightarrow> bool" where
  "optimizer_returns set_order self graph membership iteration_count \<longleftrightarrow>
     (\<forall>gl ml cl. (continues set_order self)\<^sup>*\<^sup>* (graph, membership, iteration_count) (gl, ml, cl)
        \<longrightarrow> GreedyModularity_fit set_order (algorithm self) gl \<noteq> None)"

text \<open>
  The invariant of the driver's loop: the graph is well formed and square, and the running
  membership assigns one of its nodes to every original node.
\<close>

definition driver_ok :: "aggregate_graph \<Rightarrow> csr_matrix \<Rightarrow> bool" where
  "driver_ok graph membership \<longleftrightarrow>
     wf_graph graph \<and> n_col (norm_adjacency graph) = n_nodes graph \<and>
     one_per_row membership \<and> n_col membership = n_nodes graph"

text \<open>
  The driver with the default parameters and the interpreted engine, the same driver with
  a negative tolerance of the optimizer, and the adjacency whose normalisation is
  \<open>edge_and_loop\<close>.
\<close>

definition default_louvain :: louvain where
  "default_louvain =
     \<lparr>algorithm = python_optimizer, agg_tol = 1 / 1000, max_agg_iter = - 1,
      shuffle_nodes = False\<rparr>"

definition negative_tol_louvain :: louvain where
  "negative_tol_louvain =
     \<lparr>algorithm = \<lparr>resolution = 1, tol = - 1, engine = ''python''\<rparr>,
      agg_tol = 1 / 1000, max_agg_iter = - 1, shuffle_nodes = False\<rparr>"

definition edge_and_loop_adjacency :: csr_matrix where
  "edge_and_loop_adjacency =
     \<lparr>n_row = 3, n_col = 3, row_entries = [[(2, 1)], [(1, 1)], [(0, 1)]]\<rparr>"

text \<open>
  The inputs of the driver that it treats as bipartite, and what is assumed of the order
  drawn by \<^verbatim>\<open>random_state.permutation\<close>: the nodes \<open>0, \<dots>, n - 1\<close>, each once.
\<close>

definition bipartite_input :: "csr_matrix \<Rightarrow> bool \<Rightarrow> bool" where
  "bipartite_input adjacency force_biadjacency \<longleftrightarrow>
     n_row adjacency \<noteq> n_col adjacency \<or> force_biadjacency"

definition is_permutation :: "nat list \<Rightarrow> nat \<Rightarrow> bool" where
  "is_permutation nodes n \<longleftrightarrow> sort nodes = [0..<n]"

text \<open>
  A biadjacency matrix with two rows and three columns, one with two rows and no column,
  and a driver that shuffles.
\<close>

definition rectangle :: csr_matrix where
  "rectangle = \<lparr>n_row = 2, n_col = 3, row_entries = [[(0, 1), (1, 1)], [(2, 1)]]\<rparr>"

definition no_columns :: csr_matrix where
  "no_columns = \<lparr>n_row = 2, n_col = 0, row_entries = [[], []]\<rparr>"

definition shuffling_louvain :: louvain where
  "shuffling_louvain = default_louvain\<lparr>shuffle_nodes := True\<rparr>"



section \<open>Sparse matrices\<close>

lemma wf_csr_row:
  "wf_csr adj \<Longrightarrow> i < n_row adj \<Longrightarrow> e \<in> set (row_entries adj ! i) \<Longrightarrow> fst e < n_col adj"
  unfolding wf_csr_def by (metis nth_mem)

lemma filter_upt_eq:
  "filter (\<lambda>x. x = j \<and> P x) [0..<c] = (if j < c \<and> P j then [j] else [])"
  by (induction c) auto

lemma csr_of_shape [simp]: "n_row (csr_of r c f) = r" "n_col (csr_of r c f) = c"
  by (simp_all add: csr_of_def)

lemma csr_of_rows_length [simp]: "length (row_entries (csr_of r c f)) = r"
  by (simp add: csr_of_def)

lemma wf_csr_of [simp]: "wf_csr (csr_of r c f)"
  by (auto simp: wf_csr_def csr_of_def)

lemma coeff_csr_of:
  assumes "i < r" "j < c"
  shows "coeff (csr_of r c f) i j = f i j"
proof -
  have "filter (\<lambda>e. fst e = j) (map (\<lambda>j. (j, f i j)) (filter (\<lambda>j. f i j \<noteq> 0) [0..<c]))
      = map (\<lambda>j. (j, f i j)) (filter (\<lambda>x. x = j \<and> f i x \<noteq> 0) [0..<c])"
    by (simp add: filter_map o_def conj_commute)
  then show ?thesis using assms by (simp add: coeff_def csr_of_def filter_upt_eq)
qed

lemma scale_csr_shape [simp]:
  "n_row (scale_csr x m) = n_row m" "n_col (scale_csr x m) = n_col m"
  by (simp_all add: scale_csr_def)

lemma wf_scale_csr [simp]: "wf_csr (scale_csr x m) = wf_csr m"
  by (auto simp: wf_csr_def scale_csr_def)

lemma coeff_scale_csr:
  "i < length (row_entries m) \<Longrightarrow> coeff (scale_csr x m) i j = x * coeff m i j"
proof -
  have "sum_list (map snd (filter (\<lambda>e. fst e = j) (map (\<lambda>e. (fst e, x * snd e)) row)))
      = x * sum_list (map snd (filter (\<lambda>e. fst e = j) row))" for row :: "(nat \<times> real) list"
    by (induction row) (auto simp: algebra_simps)
  then show "i < length (row_entries m) \<Longrightarrow> coeff (scale_csr x m) i j = x * coeff m i j"
    by (simp add: coeff_def scale_csr_def)
qed

lemma directed2undirected_square:
  assumes "n_row a = n" "n_col a = n"
  shows "directed2undirected a = Inr (csr_of n n (\<lambda>i j. coeff a i j + coeff (transpose_csr a) i j))"
  using assms by (simp add: directed2undirected_def add_csr_def transpose_csr_def)

lemma directed2undirected_not_square:
  assumes "n_row a \<noteq> n_col a"
  shows "directed2undirected a = Inl ValueError"
  using assms by (auto simp add: directed2undirected_def add_csr_def transpose_csr_def)

lemma proxy_coeff:
  assumes "n_row a = n" "n_col a = n" "directed2undirected a = Inr u" "i < n" "j < n"
  shows "coeff (scale_csr (1 / 2) u) i j = (coeff a i j + coeff a j i) / 2"
proof -
  have u: "u = csr_of n n (\<lambda>i j. coeff a i j + coeff (transpose_csr a) i j)"
    using assms directed2undirected_square[of a n] by simp
  have t: "coeff (transpose_csr a) i j = coeff a j i"
    using assms by (simp add: transpose_csr_def coeff_csr_of)
  have "coeff (scale_csr (1 / 2) u) i j = 1 / 2 * coeff u i j"
    by (rule coeff_scale_csr) (simp add: u \<open>i < n\<close>)
  also have "coeff u i j = coeff a i j + coeff (transpose_csr a) i j"
    unfolding u using assms by (simp add: coeff_csr_of)
  finally show ?thesis by (simp add: t)
qed

lemma proxy_ok_fit:
  assumes "n_row a = n" "n_col a = n" "directed2undirected a = Inr u"
  shows "proxy_ok n (scale_csr (1 / 2) u) (diagonal (scale_csr (1 / 2) u))"
proof -
  have u: "u = csr_of n n (\<lambda>i j. coeff a i j + coeff (transpose_csr a) i j)"
    using assms directed2undirected_square[of a n] by simp
  have shape: "n_row u = n" "n_col u = n" "wf_csr u"
    by (simp_all add: u)
  show ?thesis
    unfolding proxy_ok_def diagonal_def
    by (simp add: shape proxy_coeff[OF assms])
qed

lemma sum_list_upt: "sum_list (map f [0..<n]) = (\<Sum>i<n. f i)"
  by (simp add: interv_sum_list_conv_sum_set_nat lessThan_atLeast0)

lemma row_sum_by_col:
  fixes row :: "(nat \<times> real) list"
  assumes "\<forall>e \<in> set row. fst e < n"
  shows "sum_list (map snd row) = (\<Sum>j<n. sum_list (map snd (filter (\<lambda>e. fst e = j) row)))"
  using assms
proof (induction row)
  case Nil
  then show ?case by simp
next
  case (Cons e row)
  have lt: "fst e < n" using Cons.prems by simp
  have "(\<Sum>j<n. sum_list (map snd (filter (\<lambda>x. fst x = j) (e # row))))
      = (\<Sum>j<n. (if fst e = j then snd e else 0) + sum_list (map snd (filter (\<lambda>x. fst x = j) row)))"
    by (rule sum.cong) auto
  also have "\<dots> = snd e + (\<Sum>j<n. sum_list (map snd (filter (\<lambda>x. fst x = j) row)))"
    using lt by (simp add: sum.distrib)
  finally show ?case using Cons by simp
qed

lemma data_sum_rows:
  "data_sum m = (\<Sum>i<length (row_entries m). sum_list (map snd (row_entries m ! i)))"
proof -
  have "sum_list (map snd (concat rs)) = sum_list (map (\<lambda>r. sum_list (map snd r)) rs)"
    for rs :: "(nat \<times> real) list list"
    by (induction rs) auto
  then have "data_sum m = sum_list (map (\<lambda>r. sum_list (map snd r)) (row_entries m))"
    by (simp add: data_sum_def)
  also have "\<dots> = (\<Sum>i = 0..<length (row_entries m). map (\<lambda>r. sum_list (map snd r)) (row_entries m) ! i)"
    by (simp only: sum_list_sum_nth length_map)
  also have "\<dots> = (\<Sum>i = 0..<length (row_entries m). sum_list (map snd (row_entries m ! i)))"
    by (rule sum.cong) simp_all
  finally show ?thesis by (simp add: lessThan_atLeast0)
qed

lemma data_sum_coeff:
  assumes "wf_csr m"
  shows "data_sum m = (\<Sum>i<n_row m. \<Sum>j<n_col m. coeff m i j)"
proof -
  have len: "length (row_entries m) = n_row m" using assms by (simp add: wf_csr_def)
  have "sum_list (map snd (row_entries m ! i)) = (\<Sum>j<n_col m. coeff m i j)" if "i < n_row m" for i
    unfolding coeff_def
    by (rule row_sum_by_col) (use wf_csr_row[OF assms that] in auto)
  then show ?thesis by (simp add: data_sum_rows len)
qed

lemma data_sum_csr_of: "data_sum (csr_of r c f) = (\<Sum>i<r. \<Sum>j<c. f i j)"
proof -
  have "data_sum (csr_of r c f) = (\<Sum>i<r. \<Sum>j<c. coeff (csr_of r c f) i j)"
    using data_sum_coeff[of "csr_of r c f"] by simp
  also have "\<dots> = (\<Sum>i<r. \<Sum>j<c. f i j)"
    by (intro sum.cong refl) (simp add: coeff_csr_of)
  finally show ?thesis .
qed

lemma data_sum_scale: "data_sum (scale_csr x m) = x * data_sum m"
proof -
  have "sum_list (map snd (concat (map (map (\<lambda>e. (fst e, x * snd e))) rs)))
      = x * sum_list (map snd (concat rs))" for rs :: "(nat \<times> real) list list"
    by (induction rs) (auto simp: algebra_simps sum_list_const_mult o_def)
  then show ?thesis by (simp add: data_sum_def scale_csr_def)
qed

text \<open>Membership matrices.\<close>

lemma fold_max_ge: "x \<in> set xs \<Longrightarrow> x \<le> fold max xs (a::nat)"
proof -
  assume "x \<in> set xs"
  then have "x \<le> Max (set (a # xs))" by (intro Max_ge) auto
  then show ?thesis by (simp only: Max.set_eq_fold)
qed

section \<open>Membership matrices and products\<close>

lemma membership_matrix_eq:
  assumes "l \<noteq> []"
  shows "membership_matrix l
     = Inr \<lparr>n_row = length l, n_col = Suc (fold max l 0), row_entries = map (\<lambda>c. [(c, 1)]) l\<rparr>"
  using assms by (simp add: membership_matrix_def Let_def)

lemma membership_matrix_one_per_row:
  "one_per_row \<lparr>n_row = length l, n_col = Suc (fold max l 0), row_entries = map (\<lambda>c. [(c, 1)]) l\<rparr>"
  by (auto simp: one_per_row_def wf_csr_def less_Suc_eq_le fold_max_ge)

lemma one_per_row_entry:
  assumes "one_per_row m" "i < n_row m"
  obtains c where "c < n_col m" "row_entries m ! i = [(c, 1)]"
proof -
  have "row_entries m ! i \<in> set (row_entries m)"
    using assms by (simp add: one_per_row_def wf_csr_def)
  then obtain c where c: "row_entries m ! i = [(c, 1)]"
    using assms(1) by (auto simp: one_per_row_def)
  have "fst (c, 1::real) < n_col m"
    using wf_csr_row[of m i "(c, 1)"] assms c by (simp add: one_per_row_def)
  then show ?thesis using c that by simp
qed

lemma one_per_row_sum:
  assumes "one_per_row m" "i < n_row m"
  shows "(\<Sum>j<n_col m. coeff m i j) = 1"
proof -
  obtain c where c: "c < n_col m" "row_entries m ! i = [(c, 1)]"
    using one_per_row_entry[OF assms] by blast
  have "(\<Sum>j<n_col m. coeff m i j) = (\<Sum>j<n_col m. if c = j then 1 else 0)"
    by (rule sum.cong) (auto simp: coeff_def c)
  then show ?thesis using c(1) by simp
qed

lemma transpose_shape [simp]:
  "n_row (transpose_csr m) = n_col m" "n_col (transpose_csr m) = n_row m"
  "wf_csr (transpose_csr m)"
  by (simp_all add: transpose_csr_def)

lemma coeff_transpose:
  "i < n_col m \<Longrightarrow> j < n_row m \<Longrightarrow> coeff (transpose_csr m) i j = coeff m j i"
  by (simp add: transpose_csr_def coeff_csr_of)

lemma dot_vec_transpose:
  assumes m: "one_per_row m" and len: "length v = n_row m"
  shows "\<exists>w. dot_vec (transpose_csr m) v = Inr w \<and> length w = n_col m \<and> sum_list w = sum_list v"
proof -
  define w where "w = map (\<lambda>i. sum_list (map (\<lambda>k. coeff (transpose_csr m) i k * v ! k)
                                   [0..<n_col (transpose_csr m)])) [0..<n_row (transpose_csr m)]"
  have dv: "dot_vec (transpose_csr m) v = Inr w"
    using len by (simp add: dot_vec_def w_def)
  have "sum_list w = (\<Sum>a<n_col m. \<Sum>k<n_row m. coeff (transpose_csr m) a k * v ! k)"
    by (simp add: w_def sum_list_upt)
  also have "\<dots> = (\<Sum>a<n_col m. \<Sum>k<n_row m. coeff m k a * v ! k)"
    by (intro sum.cong refl) (simp add: coeff_transpose)
  also have "\<dots> = (\<Sum>k<n_row m. \<Sum>a<n_col m. coeff m k a * v ! k)"
    by (rule sum.swap)
  also have "\<dots> = (\<Sum>k<n_row m. (\<Sum>a<n_col m. coeff m k a) * v ! k)"
    by (simp add: sum_distrib_right)
  also have "\<dots> = (\<Sum>k<n_row m. v ! k)"
    by (intro sum.cong refl) (simp add: one_per_row_sum[OF m])
  also have "\<dots> = sum_list v"
    using len by (simp add: sum_list_sum_nth lessThan_atLeast0)
  finally have "sum_list w = sum_list v" .
  then show ?thesis using dv by (simp add: w_def)
qed

lemma dot_csr_right:
  assumes a: "wf_csr a" and m: "one_per_row m" and dim: "n_col a = n_row m"
  shows "\<exists>t. dot_csr a m = Inr t \<and> wf_csr t \<and> n_row t = n_row a \<and> n_col t = n_col m
           \<and> data_sum t = data_sum a"
proof -
  define t where "t = csr_of (n_row a) (n_col m)
                 (\<lambda>i j. sum_list (map (\<lambda>k. coeff a i k * coeff m k j) [0..<n_col a]))"
  have d: "dot_csr a m = Inr t" using dim by (simp add: dot_csr_def t_def)
  have "data_sum t = (\<Sum>i<n_row a. \<Sum>j<n_col m. \<Sum>k<n_col a. coeff a i k * coeff m k j)"
    by (simp add: t_def data_sum_csr_of sum_list_upt)
  also have "\<dots> = (\<Sum>i<n_row a. \<Sum>k<n_col a. \<Sum>j<n_col m. coeff a i k * coeff m k j)"
    by (intro sum.cong refl sum.swap)
  also have "\<dots> = (\<Sum>i<n_row a. \<Sum>k<n_col a. coeff a i k * (\<Sum>j<n_col m. coeff m k j))"
    by (simp add: sum_distrib_left)
  also have "\<dots> = (\<Sum>i<n_row a. \<Sum>k<n_col a. coeff a i k)"
    by (intro sum.cong refl) (simp add: one_per_row_sum[OF m] dim)
  also have "\<dots> = data_sum a" by (simp add: data_sum_coeff[OF a])
  finally have "data_sum t = data_sum a" .
  then show ?thesis using d by (simp add: t_def)
qed

lemma dot_csr_left:
  assumes t: "wf_csr t" and m: "one_per_row m" and dim: "n_row m = n_row t"
  shows "\<exists>na. dot_csr (transpose_csr m) t = Inr na \<and> wf_csr na \<and> n_row na = n_col m
           \<and> n_col na = n_col t \<and> data_sum na = data_sum t"
proof -
  define na where "na = csr_of (n_col m) (n_col t)
                 (\<lambda>i j. sum_list (map (\<lambda>k. coeff (transpose_csr m) i k * coeff t k j) [0..<n_row m]))"
  have d: "dot_csr (transpose_csr m) t = Inr na" using dim by (simp add: dot_csr_def na_def)
  have "data_sum na = (\<Sum>i<n_col m. \<Sum>j<n_col t. \<Sum>k<n_row m. coeff (transpose_csr m) i k * coeff t k j)"
    by (simp add: na_def data_sum_csr_of sum_list_upt)
  also have "\<dots> = (\<Sum>i<n_col m. \<Sum>j<n_col t. \<Sum>k<n_row m. coeff m k i * coeff t k j)"
    by (intro sum.cong refl) (simp add: coeff_transpose)
  also have "\<dots> = (\<Sum>i<n_col m. \<Sum>k<n_row m. \<Sum>j<n_col t. coeff m k i * coeff t k j)"
    by (intro sum.cong refl sum.swap)
  also have "\<dots> = (\<Sum>k<n_row m. \<Sum>i<n_col m. \<Sum>j<n_col t. coeff m k i * coeff t k j)"
    by (rule sum.swap)
  also have "\<dots> = (\<Sum>k<n_row m. (\<Sum>i<n_col m. coeff m k i) * (\<Sum>j<n_col t. coeff t k j))"
    by (simp add: sum_product)
  also have "\<dots> = (\<Sum>k<n_row t. \<Sum>j<n_col t. coeff t k j)"
    unfolding dim by (intro sum.cong refl) (simp add: one_per_row_sum[OF m] dim)
  also have "\<dots> = data_sum t" by (simp add: data_sum_coeff[OF t])
  finally have "data_sum na = data_sum t" .
  then show ?thesis using d by (simp add: na_def)
qed

section \<open>Aggregation\<close>

lemma as_matrix_assigns:
  assumes "assigns mb n"
  obtains M where "as_matrix mb = Inr M" "n_row M = n" "one_per_row M"
proof (cases mb)
  case (Labels l)
  then have l: "length l = n" "l \<noteq> []" using assms by (auto simp: assigns_def)
  show ?thesis
    using that[of "\<lparr>n_row = length l, n_col = Suc (fold max l 0), row_entries = map (\<lambda>c. [(c, 1)]) l\<rparr>"]
      membership_matrix_eq[OF l(2)] membership_matrix_one_per_row[of l] l(1)
    by (simp add: as_matrix_def Labels)
next
  case (Matrix m)
  then show ?thesis using assms that[of m] by (simp add: as_matrix_def assigns_def)
qed

lemma aggregate_out_ok:
  assumes m: "one_per_row M" and len: "length (out_probs h) = n_row M"
  shows "\<exists>op. aggregate_out h M = (h\<lparr>out_probs := op, n_nodes := n_row (norm_adjacency h)\<rparr>, None)
           \<and> length op = n_col M \<and> sum_list op = sum_list (out_probs h)"
  using dot_vec_transpose[OF m len] by (auto simp: aggregate_out_def)

lemma aggregate_rows_only:
  assumes wf: "wf_graph g" and sq: "n_col (norm_adjacency g) = n_nodes g"
    and am: "as_matrix rm = Inr M" and nr: "n_row M = n_nodes g" and m: "one_per_row M"
  shows "\<exists>g'. aggregate g rm None = (g', None) \<and> wf_graph g' \<and> n_nodes g' = n_col M \<and>
           n_col (norm_adjacency g') = n_col M \<and>
           sum_list (out_probs g') = sum_list (out_probs g) \<and>
           (case in_probs g of None \<Rightarrow> in_probs g' = None
            | Some p \<Rightarrow> (\<exists>p'. in_probs g' = Some p' \<and> sum_list p' = sum_list p)) \<and>
           data_sum (norm_adjacency g') = data_sum (norm_adjacency g)"
proof -
  define A where "A = norm_adjacency g"
  have wfA: "wf_csr A" and nrA: "n_row A = n_nodes g" and lo: "length (out_probs g) = n_nodes g"
    using wf by (simp_all add: wf_graph_def A_def)
  obtain t where t: "dot_csr A M = Inr t" "wf_csr t" "n_row t = n_row A" "n_col t = n_col M"
    "data_sum t = data_sum A"
    using dot_csr_right[OF wfA m] sq nr by (auto simp: A_def)
  obtain na where na: "dot_csr (transpose_csr M) t = Inr na" "wf_csr na" "n_row na = n_col M"
    "n_col na = n_col t" "data_sum na = data_sum t"
    using dot_csr_left[OF t(2) m] nr nrA t(3) by auto
  define g1 where "g1 = g\<lparr>norm_adjacency := na\<rparr>"
  show ?thesis
  proof (cases "in_probs g")
    case None
    obtain op where op: "aggregate_out g1 M = (g1\<lparr>out_probs := op, n_nodes := n_row (norm_adjacency g1)\<rparr>, None)"
      "length op = n_col M" "sum_list op = sum_list (out_probs g1)"
      using aggregate_out_ok[OF m, of g1] lo nr by (auto simp: g1_def)
    have "aggregate g rm None = (g1\<lparr>out_probs := op, n_nodes := n_row (norm_adjacency g1)\<rparr>, None)"
      using t(1) na(1) None op(1) by (simp add: aggregate_def am A_def[symmetric] g1_def Let_def)
    then show ?thesis
      using None op(2,3) na t by (simp add: g1_def wf_graph_def A_def)
  next
    case (Some ip)
    have li: "length ip = n_row M" using wf Some sq nr by (simp add: wf_graph_def)
    obtain ip' where ip': "dot_vec (transpose_csr M) ip = Inr ip'" "length ip' = n_col M"
      "sum_list ip' = sum_list ip"
      using dot_vec_transpose[OF m li] by blast
    define g2 where "g2 = g1\<lparr>in_probs := Some ip'\<rparr>"
    obtain op where op: "aggregate_out g2 M = (g2\<lparr>out_probs := op, n_nodes := n_row (norm_adjacency g2)\<rparr>, None)"
      "length op = n_col M" "sum_list op = sum_list (out_probs g2)"
      using aggregate_out_ok[OF m, of g2] lo nr by (auto simp: g1_def g2_def)
    have "aggregate g rm None = (g2\<lparr>out_probs := op, n_nodes := n_row (norm_adjacency g2)\<rparr>, None)"
      using t(1) na(1) Some ip'(1) op(1)
      by (simp add: aggregate_def am A_def[symmetric] g1_def g2_def Let_def)
    then show ?thesis
      using Some op(2,3) ip'(2,3) na t by (simp add: g1_def g2_def wf_graph_def A_def)
  qed
qed

lemma aggregate_rows_cols:
  assumes wf: "wf_graph g"
    and am: "as_matrix rm = Inr M" and nr: "n_row M = n_nodes g" and m: "one_per_row M"
    and ac: "as_matrix cmv = Inr C" and nc: "n_row C = n_col (norm_adjacency g)"
    and c: "one_per_row C"
  shows "\<exists>g' err. aggregate g rm (Some cmv) = (g', err) \<and>
           (err = None \<longleftrightarrow> in_probs g \<noteq> None) \<and>
           (err = None \<longrightarrow> wf_graph g') \<and>
           sum_list (out_probs g') = sum_list (out_probs g) \<and>
           (case in_probs g of None \<Rightarrow> in_probs g' = None
            | Some p \<Rightarrow> (\<exists>p'. in_probs g' = Some p' \<and> sum_list p' = sum_list p)) \<and>
           data_sum (norm_adjacency g') = data_sum (norm_adjacency g)"
proof -
  define A where "A = norm_adjacency g"
  have wfA: "wf_csr A" and nrA: "n_row A = n_nodes g" and lo: "length (out_probs g) = n_nodes g"
    using wf by (simp_all add: wf_graph_def A_def)
  obtain t where t: "dot_csr A C = Inr t" "wf_csr t" "n_row t = n_row A" "n_col t = n_col C"
    "data_sum t = data_sum A"
    using dot_csr_right[OF wfA c] nc by (auto simp: A_def)
  obtain na where na: "dot_csr (transpose_csr M) t = Inr na" "wf_csr na" "n_row na = n_col M"
    "n_col na = n_col t" "data_sum na = data_sum t"
    using dot_csr_left[OF t(2) m] nr nrA t(3) by auto
  define g1 where "g1 = g\<lparr>norm_adjacency := na\<rparr>"
  show ?thesis
  proof (cases "in_probs g")
    case None
    have "aggregate g rm (Some cmv) = (g1, Some TypeError)"
      using t(1) na(1) None by (simp add: aggregate_def am ac A_def[symmetric] g1_def Let_def)
    then show ?thesis using None na t by (simp add: g1_def A_def)
  next
    case (Some ip)
    have li: "length ip = n_row C" using wf Some nc by (simp add: wf_graph_def)
    obtain ip' where ip': "dot_vec (transpose_csr C) ip = Inr ip'" "length ip' = n_col C"
      "sum_list ip' = sum_list ip"
      using dot_vec_transpose[OF c li] by blast
    define g2 where "g2 = g1\<lparr>in_probs := Some ip'\<rparr>"
    obtain op where op: "aggregate_out g2 M = (g2\<lparr>out_probs := op, n_nodes := n_row (norm_adjacency g2)\<rparr>, None)"
      "length op = n_col M" "sum_list op = sum_list (out_probs g2)"
      using aggregate_out_ok[OF m, of g2] lo nr by (auto simp: g1_def g2_def)
    have "aggregate g rm (Some cmv) = (g2\<lparr>out_probs := op, n_nodes := n_row (norm_adjacency g2)\<rparr>, None)"
      using t(1) na(1) Some ip'(1) op(1)
      by (simp add: aggregate_def am ac A_def[symmetric] g1_def g2_def Let_def)
    then show ?thesis
      using Some op(2,3) ip'(2,3) na t by (simp add: g1_def g2_def wf_graph_def A_def)
  qed
qed

lemma n_assigned_as_matrix:
  "as_matrix mb = Inr M \<Longrightarrow> n_row M = n_assigned mb"
  by (cases mb) (auto simp: as_matrix_def n_assigned_def membership_matrix_def Let_def split: if_splits)

lemma as_matrix_error: "as_matrix mb = Inl e \<Longrightarrow> e = ValueError"
  by (cases mb) (auto simp: as_matrix_def membership_matrix_def Let_def split: if_splits)

lemma dot_csr_cases:
  obtains (mismatch) "n_col a \<noteq> n_row b" "dot_csr a b = Inl ValueError"
  | (ok) t where "n_col a = n_row b" "dot_csr a b = Inr t" "n_row t = n_row a" "n_col t = n_col b"
  by (cases "n_col a = n_row b") (auto simp: dot_csr_def)

lemma normalize_adjacency_sum:
  assumes "data_sum adjacency \<noteq> 0"
  shows "data_sum (normalize_adjacency adjacency) = 1"
  using assms by (simp add: normalize_adjacency_def data_sum_scale)

lemma normalize_adjacency_no_mass:
  assumes "data_sum adjacency = 0"
  shows "data_sum (normalize_adjacency adjacency) = 0"
  using assms by (simp add: normalize_adjacency_def data_sum_scale)

lemma normalize_adjacency_no_entries:
  assumes "concat (row_entries adjacency) = []"
  shows "normalize_adjacency adjacency = adjacency"
proof -
  have "map (map f) rs = rs" if "concat rs = []"
    for rs :: "(nat \<times> real) list list" and f
    using that by (induction rs) auto
  then show ?thesis using assms by (simp add: normalize_adjacency_def scale_csr_def)
qed

lemma AggregateGraph_init_cases:
  "AggregateGraph_init adjacency out_weights in_weights =
     (case check_probs out_weights adjacency of
        Inl e \<Rightarrow> Inl e
      | Inr op \<Rightarrow>
         (case in_weights of
            None \<Rightarrow>
              Inr \<lparr>n_nodes = n_row adjacency, norm_adjacency = normalize_adjacency adjacency,
                   out_probs = op, in_probs = None\<rparr>
          | Some iw \<Rightarrow>
             (case check_probs iw (transpose_csr adjacency) of
                Inl e \<Rightarrow> Inl e
              | Inr ip \<Rightarrow>
                  Inr \<lparr>n_nodes = n_row adjacency,
                       norm_adjacency = normalize_adjacency adjacency,
                       out_probs = op, in_probs = Some ip\<rparr>)))"
  by (simp add: AggregateGraph_init_def Let_def)

lemma edge_and_loop_facts:
  "sum_list (out_probs edge_and_loop) = 1"
  "\<forall>p. in_probs edge_and_loop = Some p \<longrightarrow> sum_list p = 1"
  "n_col (norm_adjacency edge_and_loop) = n_nodes edge_and_loop"
  "n_nodes edge_and_loop = 3"
  by (simp_all add: edge_and_loop_def)

section \<open>The two engines compute the same node step\<close>

lemma masked_sum_row_mass:
  "masked_sum (map snd row) (map (\<lambda>e. l ! fst e) row) c = row_mass row l c"
  by (induction row) (auto simp: masked_sum_def row_mass_def)

lemma fold_accumulate_length:
  "length (fold (\<lambda>(nb, w) acc. acc[l ! nb := acc ! (l ! nb) + w]) zs acc) = length acc"
  by (induction zs arbitrary: acc) (auto split: prod.splits)

lemma fold_accumulate_nth:
  "c < length acc \<Longrightarrow>
   fold (\<lambda>(nb, w) acc. acc[l ! nb := acc ! (l ! nb) + (w::real)]) zs acc ! c
     = acc ! c + sum_list (map snd (filter (\<lambda>e. l ! fst e = c) zs))"
proof (induction zs arbitrary: acc)
  case Nil
  then show ?case by simp
next
  case (Cons z zs)
  obtain nb w where z: "z = (nb, w)" by (cases z)
  have len: "c < length (acc[l ! nb := acc ! (l ! nb) + w])" using Cons.prems by simp
  show ?case
    using Cons.IH[OF len] Cons.prems
    by (auto simp: z nth_list_update)
qed

lemma numba_weights_row_mass:
  "c < n \<Longrightarrow>
   fold (\<lambda>(nb, w) acc. acc[l ! nb := acc ! (l ! nb) + w])
        (zip (map fst row) (map snd row)) (replicate n 0) ! c = row_mass row l c"
  by (simp add: fold_accumulate_nth row_mass_def zip_map_fst_snd)

lemma argmax_Cons:
  "argmax (y # ys) = (if y = Max (set (y # ys)) then 0 else Suc (length (takeWhile (\<lambda>x. x \<noteq> Max (set (y # ys))) ys)))"
  by (simp add: argmax_def)

lemma fold_best:
  fixes g :: "nat \<Rightarrow> real"
  shows "fold (\<lambda>c (bd, bc). if g c > bd then (g c, c) else (bd, bc)) cs (bd, bc)
     = (if cs \<noteq> [] \<and> Max (set (map g cs)) > bd
        then (Max (set (map g cs)), cs ! argmax (map g cs)) else (bd, bc))"
proof (induction cs arbitrary: bd bc)
  case Nil
  then show ?case by simp
next
  case (Cons x xs)
  let ?f = "\<lambda>c (bd, bc). if g c > bd then (g c, c) else (bd, bc)"
  show ?case
  proof (cases "xs = []")
    case True
    then show ?thesis by (simp add: argmax_def)
  next
    case False
    define M where "M = Max (set (map g xs))"
    define W where "W = Max (set (map g (x # xs)))"
    have W: "W = max (g x) M"
      using False by (simp add: M_def W_def)
    have am: "argmax (map g (x # xs)) = Suc (argmax (map g xs))" if "g x < M"
    proof -
      have "W = M" using W that by (simp add: max_def)
      then show ?thesis using that unfolding argmax_def W_def M_def by simp
    qed
    have am0: "argmax (map g (x # xs)) = 0" if "M \<le> g x"
    proof -
      have "W = g x" using W that by (simp add: max_def)
      then show ?thesis unfolding argmax_def W_def by simp
    qed
    have step: "fold ?f (x # xs) (bd, bc) = fold ?f xs (if g x > bd then (g x, x) else (bd, bc))"
      by simp
    have IH1: "fold ?f xs (g x, x) = (if M > g x then (M, xs ! argmax (map g xs)) else (g x, x))"
      using Cons.IH[of "g x" x] False by (simp add: M_def)
    have IH2: "fold ?f xs (bd, bc) = (if M > bd then (M, xs ! argmax (map g xs)) else (bd, bc))"
      using Cons.IH[of bd bc] False by (simp add: M_def)
    have goal: "fold ?f (x # xs) (bd, bc)
       = (if W > bd then (W, (x # xs) ! argmax (map g (x # xs))) else (bd, bc))"
    proof (cases "g x > bd")
      case gx: True
      show ?thesis
      proof (cases "M > g x")
        case True
        then show ?thesis using gx W am by (simp add: step IH1 max_def)
      next
        case False
        then show ?thesis using gx W am0 by (simp add: step IH1 max_def)
      qed
    next
      case gx: False
      show ?thesis
      proof (cases "M > bd")
        case True
        then have "g x < M" using gx by simp
        then show ?thesis using gx True W am by (simp add: step IH2 max_def)
      next
        case False
        then show ?thesis using gx W by (simp add: step IH2 max_def)
      qed
    qed
    then show ?thesis unfolding W_def by simp
  qed
qed


lemma argmax_less: "xs \<noteq> [] \<Longrightarrow> argmax xs < length xs"
proof -
  assume "xs \<noteq> []"
  then have "Max (set xs) \<in> set xs" by simp
  then have "length (takeWhile (\<lambda>x. x \<noteq> Max (set xs)) xs) < length xs"
    by (metis (mono_tags, lifting) takeWhile_eq_all_conv length_takeWhile_le le_neq_implies_less
          takeWhile_dropWhile_id append_self_conv length_0_conv length_append add_diff_cancel_left' diff_self_eq_0 add.right_neutral)
  then show ?thesis by (simp add: argmax_def)
qed

lemma nth_argmax: "xs \<noteq> [] \<Longrightarrow> xs ! argmax xs = Max (set xs)"
proof -
  assume ne: "xs \<noteq> []"
  have "argmax xs < length xs" using ne by (rule argmax_less)
  then have "\<not> (\<lambda>x. x \<noteq> Max (set xs)) (xs ! length (takeWhile (\<lambda>x. x \<noteq> Max (set xs)) xs))"
    unfolding argmax_def by (rule nth_length_takeWhile)
  then show ?thesis by (simp add: argmax_def)
qed

lemma python_node_alt:
  "python_node so res onp inp sl adj node s =
     (let row = row_entries adj ! node;
          cs = candidates so row node s;
          ld = map (\<lambda>c. delta_of res onp inp row node s c - exit_delta_of res onp inp sl row node s) cs
      in if cs \<noteq> [] \<and> Max (set ld) > 0
         then move_node onp inp node (cs ! argmax ld) (Max (set ld)) s else s)"
proof -
  have nz: "(0 < length cs) = (cs \<noteq> [])" for cs :: "nat list" by simp
  have am: "cs \<noteq> [] \<Longrightarrow> map f cs ! argmax (map f cs) = Max (set (map f cs))"
    for cs :: "nat list" and f
    by (simp add: nth_argmax)
  show ?thesis
    unfolding python_node_def Let_def candidates_def move_node_def delta_of_def exit_delta_of_def
    apply (simp only: masked_sum_row_mass map_map o_def uminus_add_conv_diff nz)
    apply (cases "removeAll (labels s ! node) (so (map (\<lambda>x. labels s ! fst x) (row_entries adj ! node))) = []")
     apply (simp only: if_False if_True simp_thms)
    apply (simp only: if_False if_True simp_thms am)
    done
qed


lemma numba_node_alt:
  assumes so: "is_set_order so"
    and a: "labels s ! node < n"
    and nb: "\<forall>e \<in> set (row_entries adj ! node). labels s ! fst e < n"
  shows "numba_node so res n onp inp sl adj node s =
     (let row = row_entries adj ! node;
          cs = candidates so row node s;
          ld = map (\<lambda>c. delta_of res onp inp row node s c - exit_delta_of res onp inp sl row node s) cs
      in if cs \<noteq> [] \<and> Max (set ld) > 0
         then move_node onp inp node (cs ! argmax ld) (Max (set ld)) s else s)"
proof -
  define row where "row = row_entries adj ! node"
  define cs where "cs = candidates so row node s"
  define ncw where "ncw = fold (\<lambda>(neighbor, w) acc.
                    acc[labels s ! neighbor := acc ! (labels s ! neighbor) + w])
                 (zip (map fst row) (map snd row)) (replicate n (0::real))"
  define e where "e = exit_delta_of res onp inp sl row node s"
  define g where "g = (\<lambda>c. delta_of res onp inp row node s c - e)"
  define ld where "ld = map g cs"
  have ncw: "ncw ! c = row_mass row (labels s) c" if "c < n" for c
    unfolding ncw_def using that by (rule numba_weights_row_mass)
  have cs_lt: "c < n" if "c \<in> set cs" for c
  proof -
    from that have "c \<in> set (so (map (\<lambda>e. labels s ! fst e) row))"
      by (simp add: cs_def candidates_def)
    then have "c \<in> set (map (\<lambda>e. labels s ! fst e) row)"
      using so by (simp add: is_set_order_def)
    then show ?thesis using nb by (auto simp: row_def)
  qed
  have exit_eq: "2 * (ncw ! (labels s ! node) - sl ! node)
                  - res * onp ! node * (in_clusters_weights s ! (labels s ! node) - inp ! node)
                  - res * inp ! node * (out_clusters_weights s ! (labels s ! node) - onp ! node) = e"
    by (simp add: e_def exit_delta_of_def ncw[OF a])
  have fold_eq: "fold (\<lambda>cluster (best_delta, best_cluster).
                          if 2 * ncw ! cluster
                                       - res * onp ! node * in_clusters_weights s ! cluster
                                       - res * inp ! node * out_clusters_weights s ! cluster
                                       - e > best_delta
                          then (2 * ncw ! cluster
                                       - res * onp ! node * in_clusters_weights s ! cluster
                                       - res * inp ! node * out_clusters_weights s ! cluster
                                       - e, cluster)
                          else (best_delta, best_cluster))
                       cs (0, labels s ! node)
        = fold (\<lambda>c (bd, bc). if g c > bd then (g c, c) else (bd, bc)) cs (0, labels s ! node)"
    by (rule fold_cong) (auto simp: g_def delta_of_def ncw cs_lt)
  have best: "fold (\<lambda>c (bd, bc). if g c > bd then (g c, c) else (bd, bc)) cs (0, labels s ! node)
      = (if cs \<noteq> [] \<and> Max (set ld) > 0 then (Max (set ld), cs ! argmax ld) else (0, labels s ! node))"
    unfolding ld_def by (rule fold_best)
  have cs_unf: "removeAll (labels s ! node) (so (map (\<lambda>j. labels s ! j) (map fst row))) = cs"
    by (simp add: cs_def candidates_def o_def)
  have nz: "(length cs \<noteq> 0) = (cs \<noteq> [])" by simp
  have lhs: "numba_node so res n onp inp sl adj node s =
      (if cs \<noteq> [] then
         (let best = (if cs \<noteq> [] \<and> Max (set ld) > 0 then (Max (set ld), cs ! argmax ld) else (0, labels s ! node))
          in if fst best > 0 then move_node onp inp node (snd best) (fst best) s else s)
       else s)"
    unfolding numba_node_def Let_def move_node_def row_def[symmetric] ncw_def[symmetric]
    unfolding cs_unf exit_eq fold_eq best nz ..
  show ?thesis
    unfolding lhs Let_def row_def[symmetric] cs_def[symmetric] e_def[symmetric]
    unfolding g_def[symmetric] ld_def[symmetric]
    by simp
qed

lemma numba_node_eq_python_node:
  assumes "is_set_order so" "labels s ! node < n"
    "\<forall>e \<in> set (row_entries adj ! node). labels s ! fst e < n"
  shows "numba_node so res n onp inp sl adj node s = python_node so res onp inp sl adj node s"
  unfolding python_node_alt numba_node_alt[OF assms] ..

section \<open>Renumbering of the reported labels\<close>

lemma fit_as_sweep_result:
  "GreedyModularity_fit so self g =
     map_option (map_sum id (\<lambda>r. \<lparr>fit_score = snd r, fit_labels = unique_inverse (fst r)\<rparr>))
       (sweep_result so self g)"
  unfolding GreedyModularity_fit_def sweep_result_def Let_def
  by (auto split: sum.splits simp: option.map_comp o_def)

lemma takeWhile_neq_nth:
  "distinct u \<Longrightarrow> k < length u \<Longrightarrow> length (takeWhile (\<lambda>x. x \<noteq> u ! k) u) = k"
proof (induction u arbitrary: k)
  case Nil
  then show ?case by simp
next
  case (Cons a u)
  show ?case
  proof (cases k)
    case 0
    then show ?thesis by simp
  next
    case (Suc m)
    then have "u ! m \<in> set u" using Cons.prems by simp
    then have "a \<noteq> u ! m" using Cons.prems by auto
    then show ?thesis using Cons Suc by simp
  qed
qed

lemma position_less:
  "l \<in> set u \<Longrightarrow> length (takeWhile (\<lambda>x. x \<noteq> l) u) < length u"
  by (induction u) auto

lemma nth_position:
  "l \<in> set u \<Longrightarrow> u ! length (takeWhile (\<lambda>x. x \<noteq> l) u) = l"
  by (induction u) auto

lemma unique_inverse_length: "length (unique_inverse ls) = length ls"
  by (simp add: unique_inverse_def)

lemma unique_inverse_order:
  assumes "i < length ls" "j < length ls"
  shows "unique_inverse ls ! i < unique_inverse ls ! j \<longleftrightarrow> ls ! i < ls ! j"
proof -
  define u where "u = sort (remdups ls)"
  define pos where "pos = (\<lambda>l. length (takeWhile (\<lambda>x. x \<noteq> l) u))"
  have su: "sorted u" and du: "distinct u" and setu: "set u = set ls"
    by (simp_all add: u_def)
  have mono: "a < b \<Longrightarrow> b < length u \<Longrightarrow> u ! a < u ! b" for a b
    using su du by (metis sorted_nth_mono nth_eq_iff_index_eq less_imp_le_nat le_neq_implies_less order.strict_trans nat_less_le)
  have pi: "pos (ls ! i) < length u" "u ! pos (ls ! i) = ls ! i"
    using assms setu by (auto simp: pos_def intro: position_less nth_position)
  have pj: "pos (ls ! j) < length u" "u ! pos (ls ! j) = ls ! j"
    using assms setu by (auto simp: pos_def intro: position_less nth_position)
  have "pos (ls ! i) < pos (ls ! j) \<longleftrightarrow> ls ! i < ls ! j"
    using mono[of "pos (ls ! i)" "pos (ls ! j)"] mono[of "pos (ls ! j)" "pos (ls ! i)"] pi pj
    by (metis less_asym' linorder_neqE_nat)
  then show ?thesis using assms by (simp add: unique_inverse_def Let_def u_def pos_def)
qed

lemma unique_inverse_set: "set (unique_inverse ls) = {..<card (set ls)}"
proof -
  define u where "u = sort (remdups ls)"
  define pos where "pos = (\<lambda>l. length (takeWhile (\<lambda>x. x \<noteq> l) u))"
  have du: "distinct u" and setu: "set u = set ls"
    by (simp_all add: u_def)
  have len: "length u = card (set ls)"
    using du setu by (metis distinct_card)
  have ui: "unique_inverse ls = map pos ls"
    by (simp add: unique_inverse_def Let_def u_def pos_def)
  have "set (map pos ls) = pos ` set u" using setu by simp
  also have "\<dots> = {..<length u}"
  proof (rule set_eqI)
    fix k show "k \<in> pos ` set u \<longleftrightarrow> k \<in> {..<length u}"
    proof
      assume "k \<in> pos ` set u"
      then show "k \<in> {..<length u}" by (auto simp: pos_def intro: position_less)
    next
      assume "k \<in> {..<length u}"
      then have k: "k < length u" by simp
      then have "pos (u ! k) = k" unfolding pos_def using du by (simp add: takeWhile_neq_nth)
      then show "k \<in> pos ` set u" using k by (metis imageI nth_mem)
    qed
  qed
  finally show ?thesis by (simp add: ui len)
qed

lemma edge_and_loop_sweeps:
  "sweep_result ascending_order python_optimizer edge_and_loop = Some (Inr ([2, 1, 2], 4 / 9))"
  by code_simp

lemma edge_and_loop_fit:
  "GreedyModularity_fit ascending_order python_optimizer edge_and_loop
     = Some (Inr \<lparr>fit_score = 4 / 9, fit_labels = [1, 0, 1]\<rparr>)"
  by code_simp

section \<open>The invariant of the sweeps and the objective\<close>

lemma cluster_mass_update:
  assumes "node < length l"
  shows "cluster_mass w (l[node := b]) c
     = cluster_mass w l c - (if l ! node = c then w ! node else 0)
         + (if b = c then w ! node else 0)"
proof -
  let ?N = "{..<length l}"
  have fin: "finite ?N" and mem: "node \<in> ?N" using assms by auto
  have rest: "(\<Sum>j\<in>?N - {node}. if l[node := b] ! j = c then w ! j else 0)
            = (\<Sum>j\<in>?N - {node}. if l ! j = c then w ! j else 0)"
    by (rule sum.cong) auto
  have "cluster_mass w (l[node := b]) c
      = (if b = c then w ! node else 0) + (\<Sum>j\<in>?N - {node}. if l[node := b] ! j = c then w ! j else 0)"
    unfolding cluster_mass_def using assms by (simp add: sum.remove[OF fin mem])
  moreover have "cluster_mass w l c
      = (if l ! node = c then w ! node else 0) + (\<Sum>j\<in>?N - {node}. if l ! j = c then w ! j else 0)"
    unfolding cluster_mass_def by (simp add: sum.remove[OF fin mem])
  ultimately show ?thesis using rest by simp
qed

lemma move_node_state_ok:
  assumes ok: "state_ok n onp inp s" and node: "node < n" and b: "b < n"
    and ne: "b \<noteq> labels s ! node"
  shows "state_ok n onp inp (move_node onp inp node b d s)"
proof -
  have len: "length (labels s) = n" using ok by (simp add: state_ok_def)
  have a: "labels s ! node < n" using ok node by (simp add: state_ok_def)
  have lab: "\<forall>c \<in> set ((labels s)[node := b]). c < n"
    using ok b by (auto simp: state_ok_def dest!: set_update_subset_insert[THEN subsetD])
  have acc: "\<forall>c<n. (acc[labels s ! node := acc ! (labels s ! node) - w ! node])
                      [b := (acc[labels s ! node := acc ! (labels s ! node) - w ! node]) ! b + w ! node] ! c
                 = cluster_mass w ((labels s)[node := b]) c"
    if "length acc = n" "\<forall>c<n. acc ! c = cluster_mass w (labels s) c" for acc w
    using that a b ne node len by (auto simp: cluster_mass_update nth_list_update)
  show ?thesis
    using ok lab acc[of "out_clusters_weights s" onp] acc[of "in_clusters_weights s" inp]
    by (simp add: state_ok_def move_node_def Let_def)
qed

lemma candidates_props:
  assumes so: "is_set_order so" and c: "c \<in> set (candidates so row node s)"
  shows "c \<noteq> labels s ! node" "\<exists>e \<in> set row. c = labels s ! fst e"
  using assms by (auto simp: candidates_def is_set_order_def)

lemma candidates_distinct:
  "is_set_order so \<Longrightarrow> distinct (candidates so row node s)"
  by (simp add: candidates_def is_set_order_def distinct_removeAll)

lemma python_node_state_ok:
  assumes so: "is_set_order so" and ok: "state_ok n onp inp s" and node: "node < n"
    and row: "\<forall>e \<in> set (row_entries adj ! node). fst e < n"
  shows "state_ok n onp inp (python_node so res onp inp sl adj node s)"
proof -
  define rw where "rw = row_entries adj ! node"
  define cs where "cs = candidates so rw node s"
  define ld where "ld = map (\<lambda>c. delta_of res onp inp rw node s c - exit_delta_of res onp inp sl rw node s) cs"
  have pn: "python_node so res onp inp sl adj node s
      = (if cs \<noteq> [] \<and> Max (set ld) > 0
         then move_node onp inp node (cs ! argmax ld) (Max (set ld)) s else s)"
    unfolding python_node_alt Let_def rw_def cs_def ld_def ..
  show ?thesis
  proof (cases "cs \<noteq> [] \<and> Max (set ld) > 0")
    case True
    then have "argmax ld < length cs" using argmax_less[of ld] by (simp add: ld_def)
    then have mem: "cs ! argmax ld \<in> set cs" by simp
    have ne: "cs ! argmax ld \<noteq> labels s ! node"
      using candidates_props(1)[OF so mem[unfolded cs_def]] by (simp add: cs_def)
    obtain e where "e \<in> set rw" "cs ! argmax ld = labels s ! fst e"
      using candidates_props(2)[OF so mem[unfolded cs_def]] by (auto simp: cs_def)
    then have lt: "cs ! argmax ld < n"
      using row ok by (auto simp: rw_def state_ok_def)
    show ?thesis
      using move_node_state_ok[OF ok node lt ne] unfolding pn if_P[OF True] .
  next
    case False
    then have "python_node so res onp inp sl adj node s = s" unfolding pn by (rule if_not_P)
    then show ?thesis using ok by simp
  qed
qed

lemma row_mass_as_sum:
  assumes "\<forall>e \<in> set row. fst e < n"
  shows "row_mass row l c
     = (\<Sum>j<n. if l ! j = c then sum_list (map snd (filter (\<lambda>e. fst e = j) row)) else 0)"
  using assms
proof (induction row)
  case Nil
  then show ?case by (simp add: row_mass_def cong: if_cong)
next
  case (Cons e row)
  have lt: "fst e < n" using Cons.prems by simp
  have IH: "row_mass row l c
     = (\<Sum>j<n. if l ! j = c then sum_list (map snd (filter (\<lambda>e. fst e = j) row)) else 0)"
    using Cons by simp
  have head: "(\<Sum>j<n. if l ! j = c then (if fst e = j then snd e else 0) else 0)
       = (if l ! fst e = c then snd e else 0)"
  proof -
    have "(\<Sum>j<n. if l ! j = c then (if fst e = j then snd e else 0) else 0)
        = (\<Sum>j\<in>{..<n}. if fst e = j then (if l ! j = c then snd e else 0) else 0)"
      by (rule sum.cong) auto
    also have "\<dots> = (if l ! fst e = c then snd e else 0)"
      using lt by (simp add: sum.delta')
    finally show ?thesis .
  qed
  have "(\<Sum>j<n. if l ! j = c then sum_list (map snd (filter (\<lambda>x. fst x = j) (e # row))) else 0)
      = (\<Sum>j<n. (if l ! j = c then (if fst e = j then snd e else 0) else 0)
               + (if l ! j = c then sum_list (map snd (filter (\<lambda>x. fst x = j) row)) else 0))"
    by (rule sum.cong) auto
  also have "\<dots> = (if l ! fst e = c then snd e else 0) + row_mass row l c"
    by (simp add: sum.distrib head IH)
  finally show ?case by (simp add: row_mass_def)
qed

lemma row_mass_coeff:
  assumes "wf_csr adj" "i < n_row adj"
  shows "row_mass (row_entries adj ! i) l c
     = (\<Sum>j<n_col adj. if l ! j = c then coeff adj i j else 0)"
proof -
  have "\<forall>e \<in> set (row_entries adj ! i). fst e < n_col adj"
    using assms by (auto simp: wf_csr_def)
  then show ?thesis unfolding coeff_def by (rule row_mass_as_sum)
qed

lemma double_sum_split:
  fixes F :: "nat \<Rightarrow> nat \<Rightarrow> real"
  assumes "v < n"
  shows "(\<Sum>i<n. \<Sum>j<n. F i j)
     = F v v + (\<Sum>j\<in>{..<n} - {v}. F v j) + (\<Sum>i\<in>{..<n} - {v}. F i v)
       + (\<Sum>i\<in>{..<n} - {v}. \<Sum>j\<in>{..<n} - {v}. F i j)"
proof -
  have fin: "finite {..<n}" and mem: "v \<in> {..<n}" using assms by auto
  have inner: "(\<Sum>j<n. F i j) = F i v + (\<Sum>j\<in>{..<n} - {v}. F i j)" for i
    by (rule sum.remove[OF fin mem])
  have "(\<Sum>i<n. \<Sum>j<n. F i j) = (\<Sum>j<n. F v j) + (\<Sum>i\<in>{..<n} - {v}. \<Sum>j<n. F i j)"
    by (rule sum.remove[OF fin mem])
  also have "\<dots> = (F v v + (\<Sum>j\<in>{..<n} - {v}. F v j))
       + (\<Sum>i\<in>{..<n} - {v}. F i v + (\<Sum>j\<in>{..<n} - {v}. F i j))"
    by (simp only: inner)
  finally show ?thesis by (simp add: sum.distrib)
qed

lemma objective_update:
  assumes v: "v < length l" and ab: "b \<noteq> l ! v"
  shows "objective res onp inp adj (l[v := b]) - objective res onp inp adj l
     = (\<Sum>j<length l. if l ! j = b
                        then (coeff adj v j - res * onp ! v * inp ! j)
                             + (coeff adj j v - res * onp ! j * inp ! v) else 0)
     - ((\<Sum>j<length l. if l ! j = l ! v
                        then (coeff adj v j - res * onp ! v * inp ! j)
                             + (coeff adj j v - res * onp ! j * inp ! v) else 0)
        - 2 * (coeff adj v v - res * onp ! v * inp ! v))"
proof -
  define n where "n = length l"
  define T where "T = (\<lambda>i j. coeff adj i j - res * onp ! i * inp ! j)"
  define F where "F = (\<lambda>m i j. if (m::nat list) ! i = m ! j then T i j else 0)"
  define G where "G = (\<lambda>c j. if l ! j = c then T v j + T j v else 0)"
  let ?N' = "{..<n} - {v}"
  have vn: "v < n" using v by (simp add: n_def)
  have fin: "finite {..<n}" and mem: "v \<in> {..<n}" using vn by auto
  have obj: "objective res onp inp adj m = (\<Sum>i<n. \<Sum>j<n. F m i j)" if "length m = n" for m
    using that unfolding objective_def F_def T_def by simp
  have split: "(\<Sum>i<n. \<Sum>j<n. F m i j)
     = F m v v + (\<Sum>j\<in>?N'. F m v j) + (\<Sum>i\<in>?N'. F m i v) + (\<Sum>i\<in>?N'. \<Sum>j\<in>?N'. F m i j)" for m
    by (rule double_sum_split[OF vn])
  have rest: "(\<Sum>i\<in>?N'. \<Sum>j\<in>?N'. F (l[v := b]) i j) = (\<Sum>i\<in>?N'. \<Sum>j\<in>?N'. F l i j)"
    by (intro sum.cong refl) (auto simp: F_def)
  have diag: "F (l[v := b]) v v = F l v v" by (simp add: F_def)
  have row': "(\<Sum>j\<in>?N'. F (l[v := b]) v j) = (\<Sum>j\<in>?N'. if l ! j = b then T v j else 0)"
    using v by (intro sum.cong refl) (auto simp: F_def)
  have col': "(\<Sum>i\<in>?N'. F (l[v := b]) i v) = (\<Sum>j\<in>?N'. if l ! j = b then T j v else 0)"
    using v by (intro sum.cong refl) (auto simp: F_def)
  have row: "(\<Sum>j\<in>?N'. F l v j) = (\<Sum>j\<in>?N'. if l ! j = l ! v then T v j else 0)"
    by (intro sum.cong refl) (auto simp: F_def)
  have col: "(\<Sum>i\<in>?N'. F l i v) = (\<Sum>j\<in>?N'. if l ! j = l ! v then T j v else 0)"
    by (intro sum.cong refl) (auto simp: F_def)
  have Gsum: "(\<Sum>j\<in>?N'. if l ! j = c then T v j else 0) + (\<Sum>j\<in>?N'. if l ! j = c then T j v else 0)
       = (\<Sum>j\<in>?N'. G c j)" for c
    unfolding sum.distrib[symmetric] by (intro sum.cong refl) (auto simp: G_def)
  have Gb: "(\<Sum>j\<in>?N'. G b j) = (\<Sum>j<n. G b j)"
  proof -
    have "G b v = 0" using ab by (auto simp: G_def)
    then show ?thesis by (simp add: sum.remove[OF fin mem, of "G b"])
  qed
  have Ga: "(\<Sum>j\<in>?N'. G (l ! v) j) = (\<Sum>j<n. G (l ! v) j) - 2 * T v v"
  proof -
    have "G (l ! v) v = 2 * T v v" by (simp add: G_def)
    then show ?thesis by (simp add: sum.remove[OF fin mem, of "G (l ! v)"])
  qed
  have "objective res onp inp adj (l[v := b]) - objective res onp inp adj l
      = ((\<Sum>j\<in>?N'. if l ! j = b then T v j else 0) + (\<Sum>j\<in>?N'. if l ! j = b then T j v else 0))
        - ((\<Sum>j\<in>?N'. if l ! j = l ! v then T v j else 0) + (\<Sum>j\<in>?N'. if l ! j = l ! v then T j v else 0))"
    by (simp add: obj n_def[symmetric] split rest diag row' col' row col)
  also have "\<dots> = (\<Sum>j<n. G b j) - ((\<Sum>j<n. G (l ! v) j) - 2 * T v v)"
    by (simp only: Gsum Gb Ga)
  finally show ?thesis unfolding G_def T_def n_def by simp
qed


lemma pair_sum:
  assumes px: "proxy_ok n adj sl" and v: "v < n" and len: "length l = n"
  shows "(\<Sum>j<n. if l ! j = c
                  then (coeff adj v j - res * onp ! v * inp ! j)
                       + (coeff adj j v - res * onp ! j * inp ! v) else 0)
     = 2 * row_mass (row_entries adj ! v) l c
       - res * onp ! v * cluster_mass inp l c
       - res * inp ! v * cluster_mass onp l c"
proof -
  have sym: "coeff adj j v = coeff adj v j" if "j < n" for j
    using px v that by (simp add: proxy_ok_def)
  have rm: "row_mass (row_entries adj ! v) l c = (\<Sum>j<n. if l ! j = c then coeff adj v j else 0)"
    using row_mass_coeff[of adj v l c] px v by (simp add: proxy_ok_def)
  have "(\<Sum>j<n. if l ! j = c
                  then (coeff adj v j - res * onp ! v * inp ! j)
                       + (coeff adj j v - res * onp ! j * inp ! v) else 0)
      = (\<Sum>j<n. 2 * (if l ! j = c then coeff adj v j else 0)
                 - res * onp ! v * (if l ! j = c then inp ! j else 0)
                 - res * inp ! v * (if l ! j = c then onp ! j else 0))"
    by (rule sum.cong) (auto simp: sym)
  also have "\<dots> = 2 * (\<Sum>j<n. if l ! j = c then coeff adj v j else 0)
                 - res * onp ! v * (\<Sum>j<n. if l ! j = c then inp ! j else 0)
                 - res * inp ! v * (\<Sum>j<n. if l ! j = c then onp ! j else 0)"
    by (simp only: sum_subtractf sum_distrib_left)
  finally show ?thesis by (simp only: rm cluster_mass_def len)
qed

lemma objective_move:
  assumes px: "proxy_ok n adj sl" and ok: "state_ok n onp inp s" and v: "node < n"
    and b: "b < n" and ne: "b \<noteq> labels s ! node"
  shows "objective res onp inp adj (labels (move_node onp inp node b d s))
     = objective res onp inp adj (labels s)
       + (delta_of res onp inp (row_entries adj ! node) node s b
          - exit_delta_of res onp inp sl (row_entries adj ! node) node s)"
proof -
  define l where "l = labels s"
  have len: "length l = n" using ok by (simp add: state_ok_def l_def)
  have a: "l ! node < n" using ok v by (simp add: state_ok_def l_def)
  have icw: "in_clusters_weights s ! c = cluster_mass inp l c"
    and ocw: "out_clusters_weights s ! c = cluster_mass onp l c" if "c < n" for c
    using ok that by (simp_all add: state_ok_def l_def)
  have sl: "sl ! node = coeff adj node node" using px v by (simp add: proxy_ok_def)
  have upd: "objective res onp inp adj (l[node := b]) - objective res onp inp adj l
      = (2 * row_mass (row_entries adj ! node) l b
           - res * onp ! node * cluster_mass inp l b - res * inp ! node * cluster_mass onp l b)
        - ((2 * row_mass (row_entries adj ! node) l (l ! node)
           - res * onp ! node * cluster_mass inp l (l ! node)
           - res * inp ! node * cluster_mass onp l (l ! node))
           - 2 * (coeff adj node node - res * onp ! node * inp ! node))"
  proof -
    have "node < length l" "b \<noteq> l ! node" using v ne len by (simp_all add: l_def)
    from objective_update[OF this, of res onp inp adj] show ?thesis
      by (simp only: len pair_sum[OF px v len])
  qed
  have lab: "labels (move_node onp inp node b d s) = l[node := b]"
    by (simp add: move_node_def Let_def l_def)
  show ?thesis
    unfolding lab delta_of_def exit_delta_of_def l_def[symmetric]
    using upd by (simp add: icw[OF b] ocw[OF b] icw[OF a] ocw[OF a] sl algebra_simps)
qed

lemma proxy_row:
  "proxy_ok n adj sl \<Longrightarrow> i < n \<Longrightarrow> e \<in> set (row_entries adj ! i) \<Longrightarrow> fst e < n"
  using wf_csr_row[of adj i e] by (simp add: proxy_ok_def)

lemma progress_refl: "state_ok n onp inp s \<Longrightarrow> progress n res onp inp adj s s"
  by (simp add: progress_def)

lemma progress_trans:
  assumes "progress n res onp inp adj s s'" "progress n res onp inp adj s' s''"
  shows "progress n res onp inp adj s s''"
  using assms unfolding progress_def by (auto simp: algebra_simps)

lemma python_node_progress:
  assumes so: "is_set_order so" and px: "proxy_ok n adj sl" and ok: "state_ok n onp inp s"
    and node: "node < n"
  shows "progress n res onp inp adj s (python_node so res onp inp sl adj node s)"
proof -
  define rw where "rw = row_entries adj ! node"
  define cs where "cs = candidates so rw node s"
  define ld where "ld = map (\<lambda>c. delta_of res onp inp rw node s c - exit_delta_of res onp inp sl rw node s) cs"
  have row: "\<forall>e \<in> set rw. fst e < n"
    using proxy_row[OF px node] by (auto simp: rw_def)
  have pn: "python_node so res onp inp sl adj node s
      = (if cs \<noteq> [] \<and> Max (set ld) > 0
         then move_node onp inp node (cs ! argmax ld) (Max (set ld)) s else s)"
    unfolding python_node_alt Let_def rw_def cs_def ld_def ..
  show ?thesis
  proof (cases "cs \<noteq> [] \<and> Max (set ld) > 0")
    case True
    define b where "b = cs ! argmax ld"
    define d where "d = Max (set ld)"
    have am: "argmax ld < length cs" using True argmax_less[of ld] by (simp add: ld_def)
    then have mem: "b \<in> set cs" by (simp add: b_def)
    have ne: "b \<noteq> labels s ! node"
      using candidates_props(1)[OF so mem[unfolded cs_def]] .
    obtain e where e: "e \<in> set rw" "b = labels s ! fst e"
      using candidates_props(2)[OF so mem[unfolded cs_def]] by auto
    have fe: "fst e < n" using row e by simp
    have lt: "b < n" using e fe ok by (auto simp: state_ok_def)
    have d: "d = delta_of res onp inp rw node s b - exit_delta_of res onp inp sl rw node s"
    proof -
      have "ld \<noteq> []" using True by (simp add: ld_def)
      then have "d = ld ! argmax ld" by (simp add: d_def nth_argmax)
      then show ?thesis using am by (simp add: ld_def b_def)
    qed
    have dpos: "d > 0" using True by (simp add: d_def)
    have s': "python_node so res onp inp sl adj node s = move_node onp inp node b d s"
      unfolding pn if_P[OF True] b_def d_def ..
    have ok': "state_ok n onp inp (move_node onp inp node b d s)"
      by (rule move_node_state_ok[OF ok node lt ne])
    have obj: "objective res onp inp adj (labels (move_node onp inp node b d s))
       = objective res onp inp adj (labels s) + d"
      using objective_move[OF px ok node lt ne, of res d] by (simp add: d rw_def)
    have len: "length (labels s) = n" using ok by (simp add: state_ok_def)
    have fne: "fst e \<noteq> node" using e ne by auto
    have nd: "\<not> distinct (labels (move_node onp inp node b d s))"
    proof -
      have "(labels s)[node := b] ! fst e = (labels s)[node := b] ! node"
        using fne e node len by simp
      moreover have "fst e < length ((labels s)[node := b])" "node < length ((labels s)[node := b])"
        using fe node len by simp_all
      ultimately have "\<not> distinct ((labels s)[node := b])"
        using fne by (metis nth_eq_iff_index_eq)
      then show ?thesis by (simp add: move_node_def Let_def)
    qed
    show ?thesis
      unfolding s' progress_def using ok' obj nd dpos
      by (simp add: move_node_def Let_def)
  next
    case False
    have "python_node so res onp inp sl adj node s = s" unfolding pn by (rule if_not_P[OF False])
    then show ?thesis using progress_refl[OF ok] by simp
  qed
qed

lemma python_fold_progress:
  assumes so: "is_set_order so" and px: "proxy_ok n adj sl" and ok: "state_ok n onp inp s"
    and ns: "\<forall>v \<in> set ns. v < n"
  shows "progress n res onp inp adj s (fold (python_node so res onp inp sl adj) ns s)"
  using ok ns
proof (induction ns arbitrary: s)
  case Nil
  then show ?case by (simp add: progress_refl)
next
  case (Cons v ns)
  have p1: "progress n res onp inp adj s (python_node so res onp inp sl adj v s)"
    using python_node_progress[OF so px Cons.prems(1)] Cons.prems(2) by simp
  then have ok1: "state_ok n onp inp (python_node so res onp inp sl adj v s)"
    by (simp add: progress_def)
  have p2: "progress n res onp inp adj (python_node so res onp inp sl adj v s)
      (fold (python_node so res onp inp sl adj) ns (python_node so res onp inp sl adj v s))"
    using Cons.IH[OF ok1] Cons.prems(2) by simp
  show ?case using progress_trans[OF p1 p2] by simp
qed

lemma numba_fold_eq_python_fold:
  assumes so: "is_set_order so" and px: "proxy_ok n adj sl" and ok: "state_ok n onp inp s"
    and ns: "\<forall>v \<in> set ns. v < n"
  shows "fold (numba_node so res n onp inp sl adj) ns s
       = fold (python_node so res onp inp sl adj) ns s"
  using ok ns
proof (induction ns arbitrary: s)
  case Nil
  then show ?case by simp
next
  case (Cons v ns)
  have v: "v < n" using Cons.prems(2) by simp
  have a: "labels s ! v < n" using Cons.prems(1) v by (simp add: state_ok_def)
  have nb: "\<forall>e \<in> set (row_entries adj ! v). labels s ! fst e < n"
    using proxy_row[OF px v] Cons.prems(1) by (auto simp: state_ok_def)
  have eq: "numba_node so res n onp inp sl adj v s = python_node so res onp inp sl adj v s"
    by (rule numba_node_eq_python_node[OF so a nb])
  have ok1: "state_ok n onp inp (python_node so res onp inp sl adj v s)"
    using python_node_progress[OF so px Cons.prems(1) v] by (simp add: progress_def)
  show ?case using Cons.IH[OF ok1] Cons.prems(2) by (simp add: eq)
qed

section \<open>Sweeps\<close>

lemma state_ok_fields [simp]:
  "state_ok n onp inp (s\<lparr>increase := x\<rparr>) = state_ok n onp inp s"
  "state_ok n onp inp (s\<lparr>pass_increase := y\<rparr>) = state_ok n onp inp s"
  "state_ok n onp inp (s\<lparr>total_increase := z\<rparr>) = state_ok n onp inp s"
  by (simp_all add: state_ok_def)

text \<open>What one sweep achieves.\<close>

lemma python_pass_props:
  fixes res tolr :: real
  assumes so: "is_set_order so" and px: "proxy_ok n adj sl" and ok: "state_ok n onp inp s"
  defines "s' \<equiv> python_pass so res tolr n onp inp sl adj s"
  shows "state_ok n onp inp s'"
    and "0 \<le> pass_increase s'"
    and "total_increase s' = total_increase s + pass_increase s'"
    and "increase s' \<longleftrightarrow> tolr < pass_increase s'"
    and "objective res onp inp adj (labels s')
           = objective res onp inp adj (labels s) + pass_increase s'"
    and "pass_increase s' = 0 \<longrightarrow> labels s' = labels s"
    and "0 < pass_increase s' \<longrightarrow> \<not> distinct (labels s')"
proof -
  define s1 where "s1 = s\<lparr>increase := False, pass_increase := 0\<rparr>"
  define s2 where "s2 = fold (python_node so res onp inp sl adj) [0..<n] s1"
  have ok1: "state_ok n onp inp s1" using ok by (simp add: s1_def)
  have pr: "progress n res onp inp adj s1 s2"
    unfolding s2_def by (rule python_fold_progress[OF so px ok1]) simp
  have s': "s' = (if tolr < pass_increase s2
                 then s2\<lparr>total_increase := total_increase s2 + pass_increase s2, increase := True\<rparr>
                 else s2\<lparr>total_increase := total_increase s2 + pass_increase s2\<rparr>)"
    by (simp add: s'_def python_pass_def Let_def s1_def s2_def)
  have f: "pass_increase s' = pass_increase s2" "labels s' = labels s2"
    "total_increase s' = total_increase s2 + pass_increase s2"
    "increase s' = (if tolr < pass_increase s2 then True else increase s2)"
    by (simp_all add: s')
  have p: "state_ok n onp inp s2" "0 \<le> pass_increase s2"
    "objective res onp inp adj (labels s2) = objective res onp inp adj (labels s) + pass_increase s2"
    "increase s2 = False" "total_increase s2 = total_increase s"
    "pass_increase s2 = 0 \<longrightarrow> labels s2 = labels s"
    "0 < pass_increase s2 \<longrightarrow> \<not> distinct (labels s2)"
    using pr by (simp_all add: progress_def s1_def)
  show "state_ok n onp inp s'" using p(1) by (simp add: s')
  show "0 \<le> pass_increase s'" using p(2) by (simp add: f)
  show "total_increase s' = total_increase s + pass_increase s'" using p(5) by (simp add: f)
  show "increase s' \<longleftrightarrow> tolr < pass_increase s'" using p(4) by (simp add: f)
  show "objective res onp inp adj (labels s') = objective res onp inp adj (labels s) + pass_increase s'"
    using p(3) by (simp add: f)
  show "pass_increase s' = 0 \<longrightarrow> labels s' = labels s" using p(6) by (simp add: f)
  show "0 < pass_increase s' \<longrightarrow> \<not> distinct (labels s')" using p(7) by (simp add: f)
qed

lemma numba_pass_eq_python_pass:
  assumes so: "is_set_order so" and px: "proxy_ok n adj sl" and ok: "state_ok n onp inp s"
  shows "numba_pass so res tolr n onp inp sl adj s = python_pass so res tolr n onp inp sl adj s"
proof -
  have ok1: "state_ok n onp inp (s\<lparr>increase := False, pass_increase := 0\<rparr>)" using ok by simp
  have "fold (numba_node so res n onp inp sl adj) [0..<n] (s\<lparr>increase := False, pass_increase := 0\<rparr>)
      = fold (python_node so res onp inp sl adj) [0..<n] (s\<lparr>increase := False, pass_increase := 0\<rparr>)"
    by (rule numba_fold_eq_python_fold[OF so px ok1]) simp
  then show ?thesis by (simp add: numba_pass_def python_pass_def)
qed

lemma cluster_mass_identity:
  assumes "c < n"
  shows "cluster_mass w [0..<n] c = w ! c"
proof -
  have "cluster_mass w [0..<n] c = (\<Sum>j\<in>{..<n}. if c = j then w ! j else 0)"
    unfolding cluster_mass_def by (intro sum.cong) auto
  also have "\<dots> = w ! c" using assms by (simp add: sum.delta)
  finally show ?thesis .
qed

lemma initial_state_ok:
  assumes "length onp = n" "length inp = n"
  shows "state_ok n onp inp (initial_state n onp inp)"
  using assms by (simp add: state_ok_def initial_state_def cluster_mass_identity)

lemma fit_core_eq_python_core:
  assumes so: "is_set_order so" and px: "proxy_ok n adj sl"
    and len: "length onp = n" "length inp = n"
  shows "fit_core so res tolr n onp inp sl adj = python_core so res tolr n onp inp sl adj"
proof -
  have "map_option (\<lambda>s. s) (while_option increase (numba_pass so res tolr n onp inp sl adj) (initial_state n onp inp))
      = while_option increase (python_pass so res tolr n onp inp sl adj) (initial_state n onp inp)"
  proof (rule while_option_commute_invariant[where P = "state_ok n onp inp"])
    fix s assume ok: "state_ok n onp inp s"
    show "state_ok n onp inp (numba_pass so res tolr n onp inp sl adj s)"
      using python_pass_props(1)[OF so px ok] numba_pass_eq_python_pass[OF so px ok] by simp
    show "increase s = increase s" ..
    show "numba_pass so res tolr n onp inp sl adj s = python_pass so res tolr n onp inp sl adj s"
      by (rule numba_pass_eq_python_pass[OF so px ok])
  next
    show "state_ok n onp inp (initial_state n onp inp)" by (rule initial_state_ok[OF len])
  qed
  then show ?thesis by (simp add: fit_core_def python_core_def option.map_ident)
qed

section \<open>Gains and the loop flag\<close>

lemma move_node_fields:
  "increase (move_node onp inp node b d s) = increase s"
  "total_increase (move_node onp inp node b d s) = total_increase s"
  "pass_increase (move_node onp inp node b d s) = pass_increase s + d"
  by (simp_all add: move_node_def Let_def)

lemma python_node_fields:
  "increase (python_node so res onp inp sl adj node s) = increase s"
  "total_increase (python_node so res onp inp sl adj node s) = total_increase s"
  "pass_increase s \<le> pass_increase (python_node so res onp inp sl adj node s)"
  by (simp_all add: python_node_alt Let_def move_node_fields)

lemma numba_node_fields:
  "increase (numba_node so res n onp inp sl adj node s) = increase s"
  "total_increase (numba_node so res n onp inp sl adj node s) = total_increase s"
  "pass_increase s \<le> pass_increase (numba_node so res n onp inp sl adj node s)"
  by (simp_all add: numba_node_def Let_def)

lemma fold_fields:
  assumes "\<And>v s. increase (f v s) = increase s"
    "\<And>v s. total_increase (f v s) = total_increase s"
    "\<And>v s. pass_increase s \<le> pass_increase (f v s)"
  shows "increase (fold f ns s) = increase s \<and> total_increase (fold f ns s) = total_increase s
       \<and> pass_increase s \<le> pass_increase (fold f ns s)"
proof (induction ns arbitrary: s)
  case Nil
  then show ?case by simp
next
  case (Cons v ns)
  show ?case using Cons[of "f v s"] assms(3)[of s v] by (simp add: assms(1,2)) 
qed

lemma python_pass_fields:
  "0 \<le> pass_increase (python_pass so res tolr n onp inp sl adj s)"
  "total_increase (python_pass so res tolr n onp inp sl adj s)
     = total_increase s + pass_increase (python_pass so res tolr n onp inp sl adj s)"
  "increase (python_pass so res tolr n onp inp sl adj s)
     \<longleftrightarrow> tolr < pass_increase (python_pass so res tolr n onp inp sl adj s)"
  using fold_fields[of "python_node so res onp inp sl adj" "[0..<n]"
      "s\<lparr>increase := False, pass_increase := 0\<rparr>", OF python_node_fields]
  by (simp_all add: python_pass_def Let_def)

lemma numba_pass_fields:
  "0 \<le> pass_increase (numba_pass so res tolr n onp inp sl adj s)"
  "total_increase (numba_pass so res tolr n onp inp sl adj s)
     = total_increase s + pass_increase (numba_pass so res tolr n onp inp sl adj s)"
  "increase (numba_pass so res tolr n onp inp sl adj s)
     \<longleftrightarrow> tolr < pass_increase (numba_pass so res tolr n onp inp sl adj s)"
  using fold_fields[of "numba_node so res n onp inp sl adj" "[0..<n]"
      "s\<lparr>increase := False, pass_increase := 0\<rparr>", OF numba_node_fields]
  by (simp_all add: numba_pass_def Let_def)

lemma sweep_of_fields:
  "0 \<le> pass_increase (sweep_of so self g adj s)"
  "total_increase (sweep_of so self g adj s)
     = total_increase s + pass_increase (sweep_of so self g adj s)"
  "increase (sweep_of so self g adj s) \<longleftrightarrow> tol self < pass_increase (sweep_of so self g adj s)"
  by (simp_all add: sweep_of_def Let_def python_pass_fields numba_pass_fields)

lemma while_option_least:
  assumes "while_option b c s0 = Some t"
  shows "\<exists>m. t = (c ^^ m) s0 \<and> \<not> b t \<and> (\<forall>k<m. b ((c ^^ k) s0))"
proof -
  from assms have ex: "\<exists>k. \<not> b ((c ^^ k) s0)"
    and t: "t = (c ^^ (LEAST k. \<not> b ((c ^^ k) s0))) s0"
    by (auto simp: while_option_def split: if_splits)
  define m where "m = (LEAST k. \<not> b ((c ^^ k) s0))"
  have "\<not> b ((c ^^ m) s0)" unfolding m_def using ex by (rule LeastI_ex)
  moreover have "\<forall>k<m. b ((c ^^ k) s0)" unfolding m_def using not_less_Least by blast
  ultimately show ?thesis using t m_def by blast
qed

lemma while_option_reached:
  assumes "\<not> b ((c ^^ m) s0)" "\<forall>k<m. b ((c ^^ k) s0)"
  shows "while_option b c s0 = Some ((c ^^ m) s0)"
proof -
  have "(LEAST k. \<not> b ((c ^^ k) s0)) = m"
    using assms by (intro Least_equality) (auto simp: not_less[symmetric])
  then show ?thesis using assms(1) by (auto simp: while_option_def)
qed

lemma state_after_Suc:
  "state_after so self g adj (Suc k) = sweep_of so self g adj (state_after so self g adj k)"
  by (simp add: state_after_def)

lemma state_after_total:
  "total_increase (state_after so self g adj m)
     = (\<Sum>k = 1..m. pass_increase (state_after so self g adj k))"
proof (induction m)
  case 0
  then show ?case by (simp add: state_after_def initial_state_def)
next
  case (Suc m)
  have "total_increase (state_after so self g adj (Suc m))
      = total_increase (state_after so self g adj m) + pass_increase (state_after so self g adj (Suc m))"
    unfolding state_after_Suc by (rule sweep_of_fields(2))
  then show ?case using Suc by simp
qed

section \<open>The two engines\<close>

lemma ascending_order_ok: "is_set_order ascending_order"
  by (simp add: is_set_order_def ascending_order_def)

lemma edge_and_loop_wf: "wf_graph edge_and_loop"
  by (simp add: wf_graph_def wf_csr_def edge_and_loop_def)

lemma in_node_probs_length:
  assumes "wf_graph g" "n_col (norm_adjacency g) = n_nodes g"
  shows "length (case in_probs g of Some p \<Rightarrow> p | None \<Rightarrow> out_probs g) = n_nodes g"
  using assms by (auto simp: wf_graph_def split: option.splits)







lemma fit_via_sweeps:
  assumes u: "directed2undirected (norm_adjacency g) = Inr u"
    and eng: "engine self = ''python'' \<or> engine self = ''numba''"
  shows "GreedyModularity_fit so self g
     = map_option (\<lambda>s. Inr \<lparr>fit_score = total_increase s, fit_labels = unique_inverse (labels s)\<rparr>)
         (while_option increase (sweep_of so self g (scale_csr (1 / 2) u))
            (state_after so self g (scale_csr (1 / 2) u) 0))"
  using eng
  by (auto simp: GreedyModularity_fit_def u Let_def sweep_of_def state_after_def
        python_core_def fit_core_def option.map_comp o_def)

lemma edge_and_loop_sum_eq:
  "directed2undirected (norm_adjacency edge_and_loop) = Inr edge_and_loop_sum"
  by code_simp

lemma gains_nonneg: "0 \<le> pass_increase (state_after so self g adj k)"
proof (cases k)
  case 0
  then show ?thesis by (simp add: state_after_def initial_state_def)
next
  case (Suc j)
  show ?thesis unfolding Suc state_after_Suc by (rule sweep_of_fields(1))
qed

lemma flag_after_sweep:
  "increase (state_after so self g adj (Suc k))
     \<longleftrightarrow> tol self < pass_increase (state_after so self g adj (Suc k))"
  unfolding state_after_Suc by (rule sweep_of_fields(3))

lemma flag_after_sweeps:
  "0 < k \<Longrightarrow> increase (state_after so self g adj k)
     \<longleftrightarrow> tol self < pass_increase (state_after so self g adj k)"
  using flag_after_sweep[of so self g adj "k - 1"] by simp

lemma state_after_funpow:
  "(sweep_of so self g adj ^^ k) (state_after so self g adj 0) = state_after so self g adj k"
  by (simp add: state_after_def)

lemma fit_returns_after:
  assumes u: "directed2undirected (norm_adjacency g) = Inr u"
    and eng: "engine self = ''python'' \<or> engine self = ''numba''"
    and r: "GreedyModularity_fit so self g = Some (Inr r)"
  shows "\<exists>m>0. fit_score r
              = (\<Sum>k = 1..m. pass_increase (state_after so self g (scale_csr (1 / 2) u) k)) \<and>
           fit_labels r = unique_inverse (labels (state_after so self g (scale_csr (1 / 2) u) m)) \<and>
           \<not> tol self < pass_increase (state_after so self g (scale_csr (1 / 2) u) m) \<and>
           (\<forall>k. 0 < k \<and> k < m \<longrightarrow>
              tol self < pass_increase (state_after so self g (scale_csr (1 / 2) u) k))"
proof -
  define adj where "adj = scale_csr (1 / 2) u"
  define st where "st = state_after so self g adj"
  define body where "body = sweep_of so self g adj"
  have st_it: "(body ^^ k) (st 0) = st k" for k
    unfolding body_def st_def by (rule state_after_funpow)
  have st0: "increase (st 0)"
    by (simp add: st_def state_after_def initial_state_def)
  have flag: "increase (st k) \<longleftrightarrow> tol self < pass_increase (st k)" if "0 < k" for k
    unfolding st_def by (rule flag_after_sweeps[OF that])
  from r obtain t where w: "while_option increase body (st 0) = Some t"
    and rt: "r = \<lparr>fit_score = total_increase t, fit_labels = unique_inverse (labels t)\<rparr>"
    unfolding fit_via_sweeps[OF u eng] body_def st_def adj_def by auto
  from while_option_least[OF w] obtain m where m: "t = (body ^^ m) (st 0)"
    "\<not> increase t" "\<forall>k<m. increase ((body ^^ k) (st 0))"
    by blast
  have tm: "t = st m" using m(1) by (simp only: st_it)
  have mpos: "0 < m" using m(2) st0 tm by (cases m) auto
  have tot: "total_increase (st m) = (\<Sum>k = 1..m. pass_increase (st k))"
    unfolding st_def by (rule state_after_total)
  have stop: "\<not> tol self < pass_increase (st m)" using m(2) tm flag[OF mpos] by simp
  have "\<forall>k<m. increase (st k)" using m(3) by (simp only: st_it)
  then have cont: "\<forall>k. 0 < k \<and> k < m \<longrightarrow> tol self < pass_increase (st k)"
    using flag by auto
  show ?thesis
    using mpos tot stop cont unfolding st_def adj_def by (auto simp: rt tm st_def adj_def)
qed

lemma fit_none_iff:
  assumes u: "directed2undirected (norm_adjacency g) = Inr u"
    and eng: "engine self = ''python'' \<or> engine self = ''numba''"
  shows "GreedyModularity_fit so self g = None
     \<longleftrightarrow> (\<forall>k>0. tol self < pass_increase (state_after so self g (scale_csr (1 / 2) u) k))"
proof -
  define st where "st = state_after so self g (scale_csr (1 / 2) u)"
  have st0: "increase (st 0)"
    by (simp add: st_def state_after_def initial_state_def)
  have "GreedyModularity_fit so self g = None \<longleftrightarrow> (\<forall>k. increase (st k))"
    unfolding fit_via_sweeps[OF u eng] st_def by (simp add: while_option_def state_after_funpow)
  also have "\<dots> \<longleftrightarrow> (\<forall>k>0. increase (st k))"
    using st0 by (metis gr0I)
  also have "\<dots> \<longleftrightarrow> (\<forall>k>0. tol self < pass_increase (st k))"
    unfolding st_def using flag_after_sweeps by simp
  finally show ?thesis unfolding st_def .
qed

section \<open>The sweeps end\<close>

lemma finite_labelings: "finite {l. set l \<subseteq> {..<n::nat} \<and> length l = n}"
  by (rule finite_lists_length_eq) simp

lemma python_loop_terminates:
  fixes res tolr :: real
  assumes so: "is_set_order so" and px: "proxy_ok n adj sl"
    and len: "length onp = n" "length inp = n" and tol: "0 \<le> tolr"
  shows "\<exists>t. while_option increase (python_pass so res tolr n onp inp sl adj)
               (initial_state n onp inp) = Some t"
proof -
  define L where "L = {l. set l \<subseteq> {..<n} \<and> length l = n}"
  define better where "better = (\<lambda>s :: sweep_state. {l \<in> L. objective res onp inp adj (labels s) < objective res onp inp adj l})"
  define f where "f = (\<lambda>s :: sweep_state. if increase s then Suc (card (better s)) else 0)"
  have finL: "finite L" unfolding L_def by (rule finite_labelings)
  show ?thesis
  proof (rule measure_while_option_Some[where P = "state_ok n onp inp" and f = f])
    fix s assume ok: "state_ok n onp inp s" and inc: "increase s"
    define s' where "s' = python_pass so res tolr n onp inp sl adj s"
    note props = python_pass_props[OF so px ok, of res tolr, folded s'_def]
    have dec: "f s' < f s"
    proof (cases "increase s'")
      case False
      then show ?thesis using inc by (simp add: f_def)
    next
      case True
      then have gain: "0 < pass_increase s'" using props(4) tol by simp
      then have lt: "objective res onp inp adj (labels s) < objective res onp inp adj (labels s')"
        using props(5) by simp
      have inL: "labels s' \<in> L" using props(1) by (auto simp: state_ok_def L_def)
      have "better s' \<subset> better s"
      proof
        show "better s' \<subseteq> better s" using lt by (auto simp: better_def)
        have "labels s' \<in> better s" "labels s' \<notin> better s'"
          using inL lt by (simp_all add: better_def)
        then show "better s' \<noteq> better s" by auto
      qed
      moreover have "finite (better s)" using finL by (simp add: better_def)
      ultimately have "card (better s') < card (better s)" by (rule psubset_card_mono[rotated])
      then show ?thesis using True inc by (simp add: f_def)
    qed
    show "state_ok n onp inp (python_pass so res tolr n onp inp sl adj s)
        \<and> f (python_pass so res tolr n onp inp sl adj s) < f s"
      using props(1) dec by (simp add: s'_def)
  next
    show "state_ok n onp inp (initial_state n onp inp)" by (rule initial_state_ok[OF len])
  qed
qed

lemma python_loop_result:
  fixes res tolr :: real
  assumes so: "is_set_order so" and px: "proxy_ok n adj sl"
    and len: "length onp = n" "length inp = n"
    and w: "while_option increase (python_pass so res tolr n onp inp sl adj)
               (initial_state n onp inp) = Some t"
  shows "state_ok n onp inp t \<and> 0 \<le> total_increase t
       \<and> (0 < total_increase t \<longrightarrow> \<not> distinct (labels t))"
proof (rule while_option_rule[OF _ w])
  show "state_ok n onp inp (initial_state n onp inp) \<and> 0 \<le> total_increase (initial_state n onp inp)
       \<and> (0 < total_increase (initial_state n onp inp) \<longrightarrow> \<not> distinct (labels (initial_state n onp inp)))"
    using initial_state_ok[OF len] by (simp add: initial_state_def)
next
  fix s assume P: "state_ok n onp inp s \<and> 0 \<le> total_increase s
       \<and> (0 < total_increase s \<longrightarrow> \<not> distinct (labels s))" and "increase s"
  then have ok: "state_ok n onp inp s" by simp
  define s' where "s' = python_pass so res tolr n onp inp sl adj s"
  note props = python_pass_props[OF so px ok, of res tolr, folded s'_def]
  have "0 \<le> total_increase s'" using props(2,3) P by simp
  moreover have "\<not> distinct (labels s')" if "0 < total_increase s'"
  proof (cases "0 < pass_increase s'")
    case True
    then show ?thesis using props(7) by simp
  next
    case False
    then have z: "pass_increase s' = 0" using props(2) by simp
    then have "labels s' = labels s" "total_increase s' = total_increase s"
      using props(6,3) by simp_all
    then show ?thesis using that P by simp
  qed
  ultimately show "state_ok n onp inp (python_pass so res tolr n onp inp sl adj s)
       \<and> 0 \<le> total_increase (python_pass so res tolr n onp inp sl adj s)
       \<and> (0 < total_increase (python_pass so res tolr n onp inp sl adj s)
            \<longrightarrow> \<not> distinct (labels (python_pass so res tolr n onp inp sl adj s)))"
    using props(1) by (simp add: s'_def)
qed

lemma square_of_sum:
  assumes "wf_graph g" "directed2undirected (norm_adjacency g) = Inr u"
  shows "n_col (norm_adjacency g) = n_nodes g"
proof (rule ccontr)
  assume "n_col (norm_adjacency g) \<noteq> n_nodes g"
  then have "directed2undirected (norm_adjacency g) = Inl ValueError"
    using assms(1) by (intro directed2undirected_not_square) (simp add: wf_graph_def)
  then show False using assms(2) by simp
qed

lemma sum_of_square:
  assumes "wf_graph g" "n_col (norm_adjacency g) = n_nodes g"
  shows "\<exists>u. directed2undirected (norm_adjacency g) = Inr u"
  using assms directed2undirected_square[of "norm_adjacency g" "n_nodes g"]
  by (simp add: wf_graph_def)

lemma fit_no_error:
  assumes u: "directed2undirected (norm_adjacency g) = Inr u"
    and eng: "engine self = ''python'' \<or> engine self = ''numba''"
  shows "GreedyModularity_fit so self g \<noteq> Some (Inl e)"
  unfolding fit_via_sweeps[OF u eng] by (auto simp: map_option_case split: option.splits)

lemma fit_diverges:
  assumes u: "directed2undirected (norm_adjacency g) = Inr u"
    and eng: "engine self = ''python'' \<or> engine self = ''numba''"
    and neg: "tol self < 0"
  shows "GreedyModularity_fit so self g = None"
  unfolding fit_none_iff[OF u eng]
  using gains_nonneg[of so self g "scale_csr (1 / 2) u"] neg
  by (auto intro: less_le_trans)

lemma fit_returns:
  assumes so: "is_set_order so" and wf: "wf_graph g"
    and sq: "n_col (norm_adjacency g) = n_nodes g"
    and eng: "engine self = ''python'' \<or> engine self = ''numba''"
    and tol: "0 \<le> tol self"
  shows "\<exists>ls t. GreedyModularity_fit so self g
                  = Some (Inr \<lparr>fit_score = t, fit_labels = unique_inverse ls\<rparr>) \<and>
           sweep_result so self g = Some (Inr (ls, t)) \<and>
           length ls = n_nodes g \<and> (\<forall>c \<in> set ls. c < n_nodes g) \<and> 0 \<le> t \<and>
           (0 < t \<longrightarrow> \<not> distinct ls)"
proof -
  obtain u where u: "directed2undirected (norm_adjacency g) = Inr u"
    using sum_of_square[OF wf sq] by blast
  define n where "n = n_nodes g"
  define onp where "onp = out_probs g"
  define inp where "inp = (case in_probs g of Some p \<Rightarrow> p | None \<Rightarrow> out_probs g)"
  define adj where "adj = scale_csr (1 / 2) u"
  define sl where "sl = diagonal adj"
  have nr: "n_row (norm_adjacency g) = n" using wf by (simp add: wf_graph_def n_def)
  have px: "proxy_ok n adj sl"
    unfolding adj_def sl_def n_def using proxy_ok_fit[OF _ sq u] nr by (simp add: n_def)
  have len: "length onp = n" "length inp = n"
    using wf in_node_probs_length[OF wf sq] by (simp_all add: wf_graph_def onp_def inp_def n_def)
  obtain t where w: "while_option increase (python_pass so (resolution self) (tol self) n onp inp sl adj)
               (initial_state n onp inp) = Some t"
    using python_loop_terminates[OF so px len tol] by blast
  note res = python_loop_result[OF so px len w]
  have pc: "python_core so (resolution self) (tol self) n onp inp sl adj
      = Some (labels t, total_increase t)"
    by (simp add: python_core_def w)
  have fc: "fit_core so (resolution self) (tol self) n onp inp sl adj
      = Some (labels t, total_increase t)"
    using fit_core_eq_python_core[OF so px len] pc by simp
  have sr: "sweep_result so self g = Some (Inr (labels t, total_increase t))"
    using eng pc fc
    by (auto simp: sweep_result_def u Let_def n_def onp_def inp_def adj_def sl_def)
  have fit: "GreedyModularity_fit so self g
      = Some (Inr \<lparr>fit_score = total_increase t, fit_labels = unique_inverse (labels t)\<rparr>)"
    by (simp add: fit_as_sweep_result sr)
  show ?thesis
    using fit sr res by (auto simp: state_ok_def n_def)
qed

lemma check_engine_result:
  "check_engine available e = Inr e' \<Longrightarrow> e' = ''python'' \<or> e' = ''numba''"
  by (auto simp: check_engine_def split: if_splits)

section \<open>The move scores\<close>

lemma row_of_proxy:
  assumes "i < n"
  shows "map fst (row_entries (scale_csr x (csr_of n n f)) ! i) = filter (\<lambda>j. f i j \<noteq> 0) [0..<n]"
  using assms by (simp add: scale_csr_def csr_of_def o_def)

lemma node_scores:
  assumes wf: "wf_graph g" and u: "directed2undirected (norm_adjacency g) = Inr u"
    and i: "i < n_nodes g" and len: "length (labels s) = n_nodes g"
  defines "adj \<equiv> scale_csr (1 / 2) u"
  defines "inp \<equiv> (case in_probs g of Some p \<Rightarrow> p | None \<Rightarrow> out_probs g)"
  shows "delta_of res (out_probs g) inp (row_entries adj ! i) i s c = candidate_score res g s i c"
    and "exit_delta_of res (out_probs g) inp (diagonal adj) (row_entries adj ! i) i s
           = exit_score res g s i"
    and "set (candidates so (row_entries adj ! i) i s)
           = set (so (map (\<lambda>j. labels s ! j) (filter (\<lambda>j. proxy g i j \<noteq> 0) [0..<n_nodes g])))
               - {labels s ! i}"
proof -
  define n where "n = n_nodes g"
  have nr: "n_row (norm_adjacency g) = n" using wf by (simp add: wf_graph_def n_def)
  have nc: "n_col (norm_adjacency g) = n" using square_of_sum[OF wf u] by (simp add: n_def)
  have px: "proxy_ok n adj (diagonal adj)" unfolding adj_def by (rule proxy_ok_fit[OF nr nc u])
  have co: "coeff adj a b = proxy g a b" if "a < n" "b < n" for a b
    unfolding adj_def proxy_def by (rule proxy_coeff[OF nr nc u that])
  have rm: "row_mass (row_entries adj ! i) (labels s) c = edge_mass g s i c" for c
  proof -
    have "row_mass (row_entries adj ! i) (labels s) c
        = (\<Sum>j<n. if labels s ! j = c then coeff adj i j else 0)"
      using row_mass_coeff[of adj i "labels s" c] px i by (simp add: proxy_ok_def n_def)
    also have "\<dots> = (\<Sum>j<n. if labels s ! j = c then proxy g i j else 0)"
      using i by (intro sum.cong refl) (simp add: co n_def)
    finally show ?thesis by (simp add: edge_mass_def sum_list_upt n_def)
  qed
  have sl: "diagonal adj ! i = self_loop g i"
    using px i co[of i i] by (simp add: proxy_ok_def self_loop_def n_def)
  show "delta_of res (out_probs g) inp (row_entries adj ! i) i s c = candidate_score res g s i c"
    by (simp add: delta_of_def candidate_score_def rm out_mass_def in_mass_def inp_def)
  show "exit_delta_of res (out_probs g) inp (diagonal adj) (row_entries adj ! i) i s
           = exit_score res g s i"
    by (simp add: exit_delta_of_def exit_score_def rm sl out_mass_def in_mass_def inp_def)
  have ueq: "u = csr_of n n (\<lambda>i j. coeff (norm_adjacency g) i j + coeff (transpose_csr (norm_adjacency g)) i j)"
    using u directed2undirected_square[OF nr nc] by simp
  have nz: "(coeff (norm_adjacency g) i j + coeff (transpose_csr (norm_adjacency g)) i j \<noteq> 0)
       = (proxy g i j \<noteq> 0)" if "j < n" for j
    using that i nr nc by (simp add: coeff_transpose proxy_def n_def)
  have "map fst (row_entries adj ! i)
      = filter (\<lambda>j. coeff (norm_adjacency g) i j + coeff (transpose_csr (norm_adjacency g)) i j \<noteq> 0) [0..<n]"
    unfolding adj_def ueq using i by (intro row_of_proxy) (simp add: n_def)
  also have "\<dots> = filter (\<lambda>j. proxy g i j \<noteq> 0) [0..<n]"
    by (rule filter_cong) (auto simp: nz)
  finally have nb: "map fst (row_entries adj ! i) = filter (\<lambda>j. proxy g i j \<noteq> 0) [0..<n]" .
  have "map (\<lambda>e. labels s ! fst e) (row_entries adj ! i)
      = map (\<lambda>j. labels s ! j) (map fst (row_entries adj ! i))"
    by simp
  then show "set (candidates so (row_entries adj ! i) i s)
           = set (so (map (\<lambda>j. labels s ! j) (filter (\<lambda>j. proxy g i j \<noteq> 0) [0..<n_nodes g])))
               - {labels s ! i}"
    unfolding candidates_def nb n_def by (simp only: set_removeAll)
qed

lemma move_node_moved:
  assumes "b \<noteq> labels s ! i"
  shows "move_node (out_probs g) (case in_probs g of Some p \<Rightarrow> p | None \<Rightarrow> out_probs g) i b
           (gain res g s i b) s = moved res g s i b"
  using assms by (simp add: move_node_def moved_def Let_def out_mass_def in_mass_def)

lemma edge_and_loop_start_labels: "length (labels edge_and_loop_start) = n_nodes edge_and_loop"
   "\<forall>c \<in> set (labels edge_and_loop_start). c < n_nodes edge_and_loop"
  by (simp_all add: edge_and_loop_start_def initial_state_def edge_and_loop_def)

section \<open>The driver's loop\<close>

lemma louvain_step:
  "(case GreedyModularity_fit so (algorithm self) g of
        None \<Rightarrow> None
      | Some (Inl e) \<Rightarrow> Some (Inl e)
      | Some (Inr fitted) \<Rightarrow>
          if fit_score fitted \<le> agg_tol self then
            Some (Inr (g, m, c + 1))
          else
            (case membership_matrix (fit_labels fitted) of
               Inl e \<Rightarrow> Some (Inl e)
             | Inr agg_membership \<Rightarrow>
                (case dot_csr m agg_membership of
                   Inl e \<Rightarrow> Some (Inl e)
                 | Inr membership' \<Rightarrow>
                    (case aggregate g (Matrix agg_membership) None of
                       (graph', Some e) \<Rightarrow> Some (Inl e)
                     | (graph', None) \<Rightarrow>
                         if n_nodes graph' = 1 then
                           Some (Inr (graph', membership', c + 1))
                         else if c + 1 = max_agg_iter self then
                           Some (Inr (graph', membership', c + 1))
                         else rec so self graph' membership' (c + 1)))))
   = (case loop_body so self g m c of
        None \<Rightarrow> None
      | Some (Inl e) \<Rightarrow> Some (Inl e)
      | Some (Inr (fitted, g', m', k)) \<Rightarrow>
          if stop_test self fitted g' k then Some (Inr (g', m', k))
          else rec so self g' m' k)"
  by (auto simp: loop_body_def stop_test_def split: option.splits sum.splits prod.splits)

lemma louvain_loop_unfold:
  "louvain_loop so self g m c
   = (case loop_body so self g m c of
        None \<Rightarrow> None
      | Some (Inl e) \<Rightarrow> Some (Inl e)
      | Some (Inr (fitted, g', m', k)) \<Rightarrow>
          if stop_test self fitted g' k then Some (Inr (g', m', k))
          else louvain_loop so self g' m' k)"
  by (subst louvain_loop.simps) (rule louvain_step)

lemma loop_sound:
  assumes "louvain_loop so self g m c = Some (Inr (g', m', k))"
  shows "\<exists>gl ml cl fitted. (continues so self)\<^sup>*\<^sup>* (g, m, c) (gl, ml, cl) \<and>
           loop_body so self gl ml cl = Some (Inr (fitted, g', m', k)) \<and>
           stop_test self fitted g' k"
proof -
  define P where "P = (\<lambda>so self g m c (res :: error + aggregate_graph \<times> csr_matrix \<times> int).
      \<forall>g' m' k. res = Inr (g', m', k) \<longrightarrow>
          (\<exists>gl ml cl fitted. (continues so self)\<^sup>*\<^sup>* (g, m, c) (gl, ml, cl) \<and>
             loop_body so self gl ml cl = Some (Inr (fitted, g', m', k)) \<and>
             stop_test self fitted g' k))"
  have "P so self g m c (Inr (g', m', k))"
  proof (rule louvain_loop.raw_induct[where P = P, OF _ assms], goal_cases)
    case (1 rec so self g m c res)
    have body: "(case loop_body so self g m c of
        None \<Rightarrow> None
      | Some (Inl e) \<Rightarrow> Some (Inl e)
      | Some (Inr (fitted, g', m', k)) \<Rightarrow>
          if stop_test self fitted g' k then Some (Inr (g', m', k))
          else rec so self g' m' k) = Some res"
      using 1(2) unfolding louvain_step .
    show ?case unfolding P_def
    proof (intro allI impI)
      fix g' m' k assume res: "res = Inr (g', m', k)"
      from body obtain x where lb: "loop_body so self g m c = Some x"
        by (cases "loop_body so self g m c") auto
      from body lb res obtain fitted g1 m1 k1 where x: "x = Inr (fitted, g1, m1, k1)"
        by (cases x) auto
      show "\<exists>gl ml cl fitted. (continues so self)\<^sup>*\<^sup>* (g, m, c) (gl, ml, cl) \<and>
             loop_body so self gl ml cl = Some (Inr (fitted, g', m', k)) \<and>
             stop_test self fitted g' k"
      proof (cases "stop_test self fitted g1 k1")
        case True
        then have "g1 = g'" "m1 = m'" "k1 = k" using body lb x res by auto
        then show ?thesis using lb x True by blast
      next
        case False
        then have r: "rec so self g1 m1 k1 = Some res" using body lb x by simp
        have c1: "continues so self (g, m, c) (g1, m1, k1)"
          using lb x False by (auto simp: continues_def)
        have "P so self g1 m1 k1 res" by (rule 1(1)[OF r])
        with res obtain gl ml cl f2 where
          p: "(continues so self)\<^sup>*\<^sup>* (g1, m1, k1) (gl, ml, cl)"
          "loop_body so self gl ml cl = Some (Inr (f2, g', m', k))" "stop_test self f2 g' k"
          unfolding P_def by blast
        have "(continues so self)\<^sup>*\<^sup>* (g, m, c) (gl, ml, cl)"
          using c1 p(1) by (rule converse_rtranclp_into_rtranclp)
        then show ?thesis using p(2,3) by blast
      qed
    qed
  qed
  then show ?thesis unfolding P_def by blast
qed

lemma loop_complete_state:
  assumes "(continues so self)\<^sup>*\<^sup>* st (gl, ml, cl)"
    and "loop_body so self gl ml cl = Some (Inr (fitted, g', m', k))"
    and "stop_test self fitted g' k"
  shows "louvain_loop so self (fst st) (fst (snd st)) (snd (snd st)) = Some (Inr (g', m', k))"
  using assms(1)
proof (induction rule: converse_rtranclp_induct)
  case base
  show ?case using assms(2,3) by (subst louvain_loop_unfold) simp
next
  case (step st st')
  obtain g1 m1 c1 where s1: "st' = (g1, m1, c1)" by (cases st')
  from step(1) obtain f where
    "loop_body so self (fst st) (fst (snd st)) (snd (snd st)) = Some (Inr (f, g1, m1, c1))"
    "\<not> stop_test self f g1 c1"
    by (auto simp: continues_def s1)
  then have "louvain_loop so self (fst st) (fst (snd st)) (snd (snd st))
      = louvain_loop so self g1 m1 c1"
    by (subst louvain_loop_unfold) simp
  then show ?case using step(3) by (simp add: s1)
qed

lemma loop_complete:
  assumes "(continues so self)\<^sup>*\<^sup>* (g, m, c) (gl, ml, cl)"
    and "loop_body so self gl ml cl = Some (Inr (fitted, g', m', k))"
    and "stop_test self fitted g' k"
  shows "louvain_loop so self g m c = Some (Inr (g', m', k))"
  using loop_complete_state[OF assms] by simp

lemma fit_result_shape:
  assumes so: "is_set_order so" and wf: "wf_graph g"
    and sq: "n_col (norm_adjacency g) = n_nodes g"
    and fit: "GreedyModularity_fit so self g = Some (Inr r)"
  shows "\<exists>ls. fit_labels r = unique_inverse ls \<and> length ls = n_nodes g \<and>
           0 \<le> fit_score r \<and> (0 < fit_score r \<longrightarrow> \<not> distinct ls)"
proof -
  obtain u where u: "directed2undirected (norm_adjacency g) = Inr u"
    using sum_of_square[OF wf sq] by blast
  define n where "n = n_nodes g"
  define onp where "onp = out_probs g"
  define inp where "inp = (case in_probs g of Some p \<Rightarrow> p | None \<Rightarrow> out_probs g)"
  define adj where "adj = scale_csr (1 / 2) u"
  define sl where "sl = diagonal adj"
  have nr: "n_row (norm_adjacency g) = n" using wf by (simp add: wf_graph_def n_def)
  have px: "proxy_ok n adj sl"
    unfolding adj_def sl_def n_def using proxy_ok_fit[OF _ sq u] nr by (simp add: n_def)
  have len: "length onp = n" "length inp = n"
    using wf in_node_probs_length[OF wf sq] by (simp_all add: wf_graph_def onp_def inp_def n_def)
  have fc: "fit_core so (resolution self) (tol self) n onp inp sl adj
      = python_core so (resolution self) (tol self) n onp inp sl adj"
    by (rule fit_core_eq_python_core[OF so px len])
  have "\<exists>p. python_core so (resolution self) (tol self) n onp inp sl adj = Some p \<and>
           r = \<lparr>fit_score = snd p, fit_labels = unique_inverse (fst p)\<rparr>"
    using fit fc
    by (auto simp: GreedyModularity_fit_def u Let_def n_def onp_def inp_def adj_def sl_def
          split: if_splits)
  then obtain t where w: "while_option increase (python_pass so (resolution self) (tol self) n onp inp sl adj)
               (initial_state n onp inp) = Some t"
    and r: "r = \<lparr>fit_score = total_increase t, fit_labels = unique_inverse (labels t)\<rparr>"
    by (auto simp: python_core_def)
  note res = python_loop_result[OF so px len w]
  show ?thesis using res by (auto simp: r state_ok_def n_def)
qed

lemma unique_inverse_cols:
  assumes "ls \<noteq> []"
  shows "Suc (fold max (unique_inverse ls) 0) = card (set ls)"
proof -
  define k where "k = card (set ls)"
  have kpos: "0 < k" using assms by (simp add: k_def card_gt_0_iff)
  have "fold max (unique_inverse ls) 0 = Max (set (0 # unique_inverse ls))"
    by (simp only: Max.set_eq_fold)
  also have "\<dots> = Max (insert 0 {..<k})" by (simp add: unique_inverse_set k_def)
  also have "\<dots> = k - 1" using kpos by (intro Max_eqI) auto
  finally show ?thesis using kpos by (simp add: k_def)
qed

lemma coeff_one_per_row:
  assumes "row_entries m ! i = [(c, 1)]"
  shows "coeff m i j = (if j = c then 1 else 0)"
  using assms by (auto simp: coeff_def)

lemma dot_one_per_row:
  assumes m: "one_per_row m" and a: "one_per_row a" and dim: "n_col m = n_row a"
  shows "\<exists>p. dot_csr m a = Inr p \<and> one_per_row p \<and> n_row p = n_row m \<and> n_col p = n_col a"
proof -
  define f where "f = (\<lambda>i j. sum_list (map (\<lambda>k. coeff m i k * coeff a k j) [0..<n_col m]))"
  define p where "p = csr_of (n_row m) (n_col a) f"
  have d: "dot_csr m a = Inr p" using dim by (simp add: dot_csr_def p_def f_def)
  have row: "\<exists>d. row_entries p ! i = [(d, 1)]" if i: "i < n_row m" for i
  proof -
    obtain c where c: "c < n_col m" "row_entries m ! i = [(c, 1)]"
      using one_per_row_entry[OF m i] by blast
    obtain e where e: "e < n_col a" "row_entries a ! c = [(e, 1)]"
      using one_per_row_entry[OF a, of c] c(1) dim by auto
    have "f i j = (if j = e then 1 else 0)" for j
    proof -
      have "f i j = (\<Sum>k<n_col m. (if k = c then 1 else 0) * coeff a k j)"
        by (simp add: f_def sum_list_upt coeff_one_per_row[OF c(2)])
      also have "\<dots> = (\<Sum>k<n_col m. if k = c then coeff a k j else 0)"
        by (intro sum.cong refl) simp
      also have "\<dots> = coeff a c j" using c(1) by simp
      finally show ?thesis by (simp add: coeff_one_per_row[OF e(2)])
    qed
    then have fe: "f i = (\<lambda>j. if j = e then 1 else 0)" by (rule ext)
    have "filter (\<lambda>j. (if j = e then 1 else (0::real)) \<noteq> 0) [0..<n_col a]
        = filter (\<lambda>j. j = e \<and> True) [0..<n_col a]"
      by (rule filter_cong) auto
    also have "\<dots> = [e]" using e(1) by (simp only: filter_upt_eq) simp
    finally have "row_entries p ! i = [(e, 1)]"
      using i by (simp add: p_def csr_of_def fe)
    then show ?thesis by blast
  qed
  have "one_per_row p"
    unfolding one_per_row_def
  proof (intro conjI ballI)
    show "wf_csr p" by (simp add: p_def)
    fix r assume "r \<in> set (row_entries p)"
    then obtain i where "i < length (row_entries p)" "r = row_entries p ! i"
      by (auto simp: in_set_conv_nth)
    then show "\<exists>c. r = [(c, 1)]" using row[of i] by (simp add: p_def)
  qed
  then show ?thesis using d by (simp add: p_def)
qed

lemma aggregate_by_labels:
  assumes ok: "driver_ok g m" and ls: "ls \<noteq> []" and len: "length ls = n_nodes g"
  shows "\<exists>am m' g'. membership_matrix (unique_inverse ls) = Inr am \<and>
           dot_csr m am = Inr m' \<and> aggregate g (Matrix am) None = (g', None) \<and>
           driver_ok g' m' \<and> n_row m' = n_row m \<and> n_nodes g' = card (set ls)"
proof -
  define am where "am = \<lparr>n_row = length (unique_inverse ls),
      n_col = Suc (fold max (unique_inverse ls) 0),
      row_entries = map (\<lambda>c. [(c, 1)]) (unique_inverse ls)\<rparr>"
  have ne: "unique_inverse ls \<noteq> []" using ls by (simp add: unique_inverse_def)
  have mm: "membership_matrix (unique_inverse ls) = Inr am"
    unfolding am_def by (rule membership_matrix_eq[OF ne])
  have am1: "one_per_row am" unfolding am_def by (rule membership_matrix_one_per_row)
  have nr: "n_row am = n_nodes g" by (simp add: am_def unique_inverse_length len)
  have ncl: "n_col am = card (set ls)" by (simp add: am_def unique_inverse_cols[OF ls])
  have wf: "wf_graph g" and sq: "n_col (norm_adjacency g) = n_nodes g"
    and m1: "one_per_row m" and mc: "n_col m = n_nodes g"
    using ok by (simp_all add: driver_ok_def)
  obtain m' where m': "dot_csr m am = Inr m'" "one_per_row m'" "n_row m' = n_row m"
    "n_col m' = n_col am"
    using dot_one_per_row[OF m1 am1] mc nr by auto
  have asm: "as_matrix (Matrix am) = Inr am" by (simp add: as_matrix_def)
  obtain g' where g': "aggregate g (Matrix am) None = (g', None)" "wf_graph g'"
    "n_nodes g' = n_col am" "n_col (norm_adjacency g') = n_col am"
    using aggregate_rows_only[OF wf sq asm nr am1] by blast
  show ?thesis
    using mm m' g' ncl by (auto simp: driver_ok_def)
qed

lemma loop_body_step:
  assumes so: "is_set_order so" and ok: "driver_ok g m"
    and lb: "loop_body so self g m c = Some (Inr (fitted, g', m', k))"
  shows "driver_ok g' m' \<and> n_row m' = n_row m \<and> k = c + 1 \<and> 0 \<le> fit_score fitted \<and>
         n_nodes g' \<le> n_nodes g \<and>
         (\<not> fit_score fitted \<le> agg_tol self \<and> 0 \<le> agg_tol self \<longrightarrow> n_nodes g' < n_nodes g)"
proof -
  have wf: "wf_graph g" and sq: "n_col (norm_adjacency g) = n_nodes g"
    using ok by (simp_all add: driver_ok_def)
  from lb have fit: "GreedyModularity_fit so (algorithm self) g = Some (Inr fitted)"
    by (auto simp: loop_body_def split: option.splits sum.splits prod.splits if_splits)
  obtain ls where ls: "fit_labels fitted = unique_inverse ls" "length ls = n_nodes g"
    "0 \<le> fit_score fitted" "0 < fit_score fitted \<longrightarrow> \<not> distinct ls"
    using fit_result_shape[OF so wf sq fit] by blast
  show ?thesis
  proof (cases "fit_score fitted \<le> agg_tol self")
    case True
    then have "g' = g" "m' = m" "k = c + 1" using lb fit by (auto simp: loop_body_def)
    then show ?thesis using ok ls(3) True by simp
  next
    case False
    have mmne: "membership_matrix (fit_labels fitted) \<noteq> Inl e" for e
      using lb fit False by (auto simp: loop_body_def split: sum.splits prod.splits option.splits)
    have ne: "ls \<noteq> []"
    proof
      assume "ls = []"
      then have "membership_matrix (fit_labels fitted) = Inl ValueError"
        by (simp add: ls(1) unique_inverse_def membership_matrix_def)
      then show False using mmne by simp
    qed
    obtain am m1 g1 where a: "membership_matrix (unique_inverse ls) = Inr am"
      "dot_csr m am = Inr m1" "aggregate g (Matrix am) None = (g1, None)"
      "driver_ok g1 m1" "n_row m1 = n_row m" "n_nodes g1 = card (set ls)"
      using aggregate_by_labels[OF ok ne ls(2)] by blast
    have eqs: "g' = g1" "m' = m1" "k = c + 1"
      using lb fit False a by (auto simp: loop_body_def ls(1))
    have le: "card (set ls) \<le> n_nodes g" using card_length[of ls] ls(2) by simp
    have lt: "card (set ls) < n_nodes g" if "0 \<le> agg_tol self"
    proof -
      have "\<not> distinct ls" using ls(4) False that by simp
      then have "card (set ls) \<noteq> length ls" using card_distinct by blast
      then show ?thesis using le ls(2) by simp
    qed
    show ?thesis using a eqs ls(3) le lt by simp
  qed
qed

lemma loop_body_returns:
  assumes so: "is_set_order so" and ok: "driver_ok g m"
    and eng: "engine (algorithm self) = ''python'' \<or> engine (algorithm self) = ''numba''"
    and ret: "GreedyModularity_fit so (algorithm self) g \<noteq> None" and agg: "0 \<le> agg_tol self"
  shows "\<exists>fitted g' m'. loop_body so self g m c = Some (Inr (fitted, g', m', c + 1))"
proof -
  have wf: "wf_graph g" and sq: "n_col (norm_adjacency g) = n_nodes g"
    using ok by (simp_all add: driver_ok_def)
  obtain u where u: "directed2undirected (norm_adjacency g) = Inr u"
    using sum_of_square[OF wf sq] by blast
  obtain res where res: "GreedyModularity_fit so (algorithm self) g = Some res"
    using ret by blast
  obtain fitted where fitted: "res = Inr fitted"
    using fit_no_error[OF u eng, of so] res by (cases res) auto
  obtain ls where lsf: "fit_labels fitted = unique_inverse ls"
    and ls: "length ls = n_nodes g" "0 < fit_score fitted \<longrightarrow> \<not> distinct ls"
    using fit_result_shape[OF so wf sq res[unfolded fitted]] by blast
  define t where "t = fit_score fitted"
  have fit: "GreedyModularity_fit so (algorithm self) g
                  = Some (Inr \<lparr>fit_score = t, fit_labels = unique_inverse ls\<rparr>)"
    using res fitted lsf by (simp add: t_def)
  note ls = ls[folded t_def]
  show ?thesis
  proof (cases "t \<le> agg_tol self")
    case True
    then show ?thesis by (simp add: loop_body_def fit)
  next
    case False
    then have "\<not> distinct ls" using ls(2) agg by simp
    then have ne: "ls \<noteq> []" by auto
    obtain am m1 g1 where a: "membership_matrix (unique_inverse ls) = Inr am"
      "dot_csr m am = Inr m1" "aggregate g (Matrix am) None = (g1, None)"
      using aggregate_by_labels[OF ok ne ls(1)] by blast
    show ?thesis using False a by (simp add: loop_body_def fit)
  qed
qed

lemma optimizer_returns_step:
  assumes "optimizer_returns so self g m c" and "continues so self (g, m, c) (g1, m1, c1)"
  shows "optimizer_returns so self g1 m1 c1"
  using assms unfolding optimizer_returns_def
  by (blast intro: converse_rtranclp_into_rtranclp)

lemma optimizer_returns_now:
  assumes "optimizer_returns so self g m c"
  shows "GreedyModularity_fit so (algorithm self) g \<noteq> None"
  using assms unfolding optimizer_returns_def by blast

lemma louvain_loop_returns:
  assumes so: "is_set_order so"
    and eng: "engine (algorithm self) = ''python'' \<or> engine (algorithm self) = ''numba''"
    and agg: "0 \<le> agg_tol self"
    and ok: "driver_ok g m"
    and rets: "optimizer_returns so self g m c"
  shows "\<exists>gl ml cl fitted g' m'.
           (continues so self)\<^sup>*\<^sup>* (g, m, c) (gl, ml, cl) \<and>
           loop_body so self gl ml cl = Some (Inr (fitted, g', m', cl + 1)) \<and>
           stop_test self fitted g' (cl + 1) \<and>
           louvain_loop so self g m c = Some (Inr (g', m', cl + 1)) \<and>
           driver_ok g' m' \<and> n_row m' = n_row m \<and>
           c \<le> cl \<and> cl - c \<le> int (n_nodes g)"
  using ok rets
proof (induction "n_nodes g" arbitrary: g m c rule: less_induct)
  case less
  note ok = less.prems(1) and rets = less.prems(2)
  obtain fitted g1 m1 where lb: "loop_body so self g m c = Some (Inr (fitted, g1, m1, c + 1))"
    using loop_body_returns[OF so ok eng optimizer_returns_now[OF rets] agg] by blast
  note st = loop_body_step[OF so ok lb]
  show ?case
  proof (cases "stop_test self fitted g1 (c + 1)")
    case True
    have "louvain_loop so self g m c = Some (Inr (g1, m1, c + 1))"
      using lb True by (subst louvain_loop_unfold) simp
    then show ?thesis using lb True st by (intro exI[of _ g] exI[of _ m] exI[of _ c]) auto
  next
    case False
    then have big: "\<not> fit_score fitted \<le> agg_tol self" by (simp add: stop_test_def)
    then have lt: "n_nodes g1 < n_nodes g" using st agg by simp
    have ok1: "driver_ok g1 m1" using st by simp
    have c1: "continues so self (g, m, c) (g1, m1, c + 1)"
      using lb False by (simp add: continues_def)
    have rets1: "optimizer_returns so self g1 m1 (c + 1)"
      using optimizer_returns_step[OF rets c1] .
    obtain gl ml cl f2 g' m' where
      p: "(continues so self)\<^sup>*\<^sup>* (g1, m1, c + 1) (gl, ml, cl)"
      "loop_body so self gl ml cl = Some (Inr (f2, g', m', cl + 1))"
      "stop_test self f2 g' (cl + 1)"
      "louvain_loop so self g1 m1 (c + 1) = Some (Inr (g', m', cl + 1))"
      "driver_ok g' m'" "n_row m' = n_row m1" "c + 1 \<le> cl" "cl - (c + 1) \<le> int (n_nodes g1)"
      using less.hyps[OF lt ok1 rets1] by blast
    have path: "(continues so self)\<^sup>*\<^sup>* (g, m, c) (gl, ml, cl)"
      using c1 p(1) by (rule converse_rtranclp_into_rtranclp)
    have "louvain_loop so self g m c = louvain_loop so self g1 m1 (c + 1)"
      using lb False by (subst louvain_loop_unfold) simp
    then have ll: "louvain_loop so self g m c = Some (Inr (g', m', cl + 1))" using p(4) by simp
    have bound: "c \<le> cl" "cl - c \<le> int (n_nodes g)" using p(7,8) lt by simp_all
    show ?thesis using path p(2,3,5,6) ll bound st by auto
  qed
qed

text \<open>In exact arithmetic the optimizer returns whenever its tolerance is not negative.\<close>

lemma optimizer_returns_exact:
  assumes so: "is_set_order so"
    and eng: "engine (algorithm self) = ''python'' \<or> engine (algorithm self) = ''numba''"
    and tol: "0 \<le> tol (algorithm self)"
    and ok: "driver_ok g m"
  shows "optimizer_returns so self g m c"
proof -
  have inv: "driver_ok (fst st) (fst (snd st))"
    if "(continues so self)\<^sup>*\<^sup>* (g, m, c) st" for st
    using that
  proof (induction rule: rtranclp_induct)
    case base
    then show ?case using ok by simp
  next
    case (step y z)
    obtain g1 m1 c1 where z: "z = (g1, m1, c1)" by (cases z)
    from step(2) obtain f where
      lb: "loop_body so self (fst y) (fst (snd y)) (snd (snd y)) = Some (Inr (f, g1, m1, c1))"
      by (auto simp: continues_def z)
    show ?case using loop_body_step[OF so step(3) lb] by (simp add: z)
  qed
  have "GreedyModularity_fit so (algorithm self) gl \<noteq> None"
    if "(continues so self)\<^sup>*\<^sup>* (g, m, c) (gl, ml, cl)" for gl ml cl
  proof -
    have "driver_ok gl ml" using inv[OF that] by simp
    then have "wf_graph gl" "n_col (norm_adjacency gl) = n_nodes gl"
      by (simp_all add: driver_ok_def)
    from fit_returns[OF so this eng tol] show ?thesis by auto
  qed
  then show ?thesis unfolding optimizer_returns_def by blast
qed

lemma identity_one_per_row: "one_per_row (identity_csr n)"
  by (auto simp: one_per_row_def wf_csr_def identity_csr_def)

lemma edge_and_loop_driver_ok: "driver_ok edge_and_loop (identity_csr 3)"
  using edge_and_loop_wf identity_one_per_row[of 3]
  by (simp add: driver_ok_def edge_and_loop_facts) (simp add: identity_csr_def)

lemma negative_tol_diverges:
  "louvain_loop ascending_order negative_tol_louvain edge_and_loop (identity_csr 3) 0 = None"
proof -
  have "GreedyModularity_fit ascending_order (algorithm negative_tol_louvain) edge_and_loop = None"
    by (rule fit_diverges[OF edge_and_loop_sum_eq]) (simp_all add: negative_tol_louvain_def)
  then show ?thesis by (subst louvain_loop.simps) simp
qed

lemma edge_and_loop_init:
  "AggregateGraph_init edge_and_loop_adjacency (Named ''degree'') (Some (Named ''degree''))
     = Inr edge_and_loop"
  by code_simp

lemma negative_tol_fit:
  "Louvain_fit ascending_order [] negative_tol_louvain edge_and_loop_adjacency
     (Named ''degree'') None False False True = None"
proof -
  have pre: "louvain_preprocess edge_and_loop_adjacency (Named ''degree'') None False False
      = Inr (edge_and_loop_adjacency, Named ''degree'', Named ''degree'')"
    by (simp add: louvain_preprocess_def edge_and_loop_adjacency_def)
  have sh: "\<not> shuffle_nodes negative_tol_louvain" by (simp add: negative_tol_louvain_def)
  have n: "n_row edge_and_loop_adjacency = 3" by (simp add: edge_and_loop_adjacency_def)
  show ?thesis
    by (simp add: Louvain_fit_def pre sh n edge_and_loop_init negative_tol_diverges)
qed

section \<open>The label vectors of \<^verbatim>\<open>Louvain.fit\<close>\<close>

text \<open>The loop keeps its invariant, and the membership keeps its rows.\<close>

lemma loop_result_ok:
  assumes so: "is_set_order so" and ok: "driver_ok g m"
    and ll: "louvain_loop so self g m c = Some (Inr (g', m', k))"
  shows "driver_ok g' m' \<and> n_row m' = n_row m"
proof -
  obtain gl ml cl fitted where p: "(continues so self)\<^sup>*\<^sup>* (g, m, c) (gl, ml, cl)"
    "loop_body so self gl ml cl = Some (Inr (fitted, g', m', k))"
    using loop_sound[OF ll] by blast
  have "driver_ok (fst st) (fst (snd st)) \<and> n_row (fst (snd st)) = n_row m"
    if "(continues so self)\<^sup>*\<^sup>* (g, m, c) st" for st
    using that
  proof (induction rule: rtranclp_induct)
    case base
    then show ?case using ok by simp
  next
    case (step y z)
    obtain g1 m1 c1 where z: "z = (g1, m1, c1)" by (cases z)
    from step(2) obtain f where
      lb: "loop_body so self (fst y) (fst (snd y)) (snd (snd y)) = Some (Inr (f, g1, m1, c1))"
      by (auto simp: continues_def z)
    have oky: "driver_ok (fst y) (fst (snd y))" using step(3) by simp
    show ?case using loop_body_step[OF so oky lb] step(3) by (simp add: z)
  qed
  from this[OF p(1)] have okl: "driver_ok gl ml" and nl: "n_row ml = n_row m" by simp_all
  show ?thesis using loop_body_step[OF so okl p(2)] nl by simp
qed

lemma indices_length:
  assumes "one_per_row m"
  shows "length (indices m) = n_row m"
proof -
  have "length (concat rs) = length rs" if "\<forall>r \<in> set rs. \<exists>c. r = [(c, 1::real)]"
    for rs :: "(nat \<times> real) list list"
    using that by (induction rs) auto
  then show ?thesis using assms by (auto simp: indices_def one_per_row_def wf_csr_def)
qed

lemma normalize_weights_length: "normalize_weights w = Inr p \<Longrightarrow> length p = length w"
  by (auto simp: normalize_weights_def split: if_splits)

lemma check_probs_length: "check_probs w a = Inr p \<Longrightarrow> length p = n_row a"
  by (cases w) (auto simp: check_probs_def split: if_splits dest!: normalize_weights_length)

lemma init_wf:
  assumes init: "AggregateGraph_init a ow (Some iw) = Inr g"
    and wf: "wf_csr a" and sq: "n_col a = n_row a"
  shows "wf_graph g \<and> n_nodes g = n_row a \<and> n_col (norm_adjacency g) = n_row a"
proof -
  from init obtain op ip where
    op: "check_probs ow a = Inr op"
    and ip: "check_probs iw (transpose_csr a) = Inr ip"
    and g: "g = \<lparr>n_nodes = n_row a, norm_adjacency = normalize_adjacency a,
                 out_probs = op, in_probs = Some ip\<rparr>"
    by (auto simp: AggregateGraph_init_cases split: sum.splits)
  show ?thesis
    using wf sq check_probs_length[OF op] check_probs_length[OF ip]
    by (simp add: g normalize_adjacency_def wf_graph_def)
qed

lemma reverse_permutation_length: "length (reverse_permutation nodes) = length nodes"
proof -
  have "length (fold (\<lambda>(node, k) r. r[node := k]) zs r) = length r"
    for zs :: "(nat \<times> nat) list" and r :: "nat list"
    by (induction zs arbitrary: r) (auto split: prod.splits)
  then show ?thesis by (simp add: reverse_permutation_def)
qed

lemma reindex_clusters_length: "length (reindex_clusters ls) = length ls"
  by (simp add: reindex_clusters_def Let_def)

text \<open>The adjacency that the driver builds from its input.\<close>

lemma preprocess_bipartite:
  assumes pre: "louvain_preprocess a w sw fu fb = Inr (a1, ow, iw)"
    and b: "n_row a \<noteq> n_col a \<or> fb"
  shows "a1 = bipartite2undirected a \<or> a1 = bipartite2directed a"
proof (cases fu)
  case True
  have eq: "louvain_preprocess a w sw fu fb
      = (case check_probs w (bipartite2undirected a) of
           Inl e \<Rightarrow> Inl e
         | Inr out_weights \<Rightarrow> Inr (bipartite2undirected a, Vector out_weights, Vector out_weights))"
    using b True by (simp add: louvain_preprocess_def Let_def)
  have "(case check_probs w (bipartite2undirected a) of
           Inl e \<Rightarrow> Inl e
         | Inr out_weights \<Rightarrow> Inr (bipartite2undirected a, Vector out_weights, Vector out_weights))
       = Inr (a1, ow, iw)"
    using pre unfolding eq .
  then show ?thesis by (cases "check_probs w (bipartite2undirected a)") simp_all
next
  case False
  define sec where "sec = (case sw of Some w \<Rightarrow> w
                        | None \<Rightarrow> (case w of Named s \<Rightarrow> Named s | Vector v \<Rightarrow> Named ''degree''))"
  have eq: "louvain_preprocess a w sw fu fb
      = (case check_probs w a of
               Inl e \<Rightarrow> Inl e
             | Inr primary_weights \<Rightarrow>
                 (case check_probs sec (transpose_csr a) of
                      Inl e \<Rightarrow> Inl e
                    | Inr sw \<Rightarrow>
                        Inr (bipartite2directed a,
                             Vector (primary_weights @ replicate (n_col a) 0),
                             Vector (replicate (n_row a) 0 @ sw))))"
    using b False
    by (cases "check_probs w a") (simp_all add: louvain_preprocess_def Let_def sec_def)
  have "(case check_probs w a of
               Inl e \<Rightarrow> Inl e
             | Inr primary_weights \<Rightarrow>
                 (case check_probs sec (transpose_csr a) of
                      Inl e \<Rightarrow> Inl e
                    | Inr sw \<Rightarrow>
                        Inr (bipartite2directed a,
                             Vector (primary_weights @ replicate (n_col a) 0),
                             Vector (replicate (n_row a) 0 @ sw)))) = Inr (a1, ow, iw)"
    using pre unfolding eq .
  then show ?thesis
    by (cases "check_probs w a"; cases "check_probs sec (transpose_csr a)") simp_all
qed

lemma preprocess_square:
  assumes pre: "louvain_preprocess a w sw fu fb = Inr (a1, ow, iw)"
    and b: "\<not> (n_row a \<noteq> n_col a \<or> fb)"
  shows "a1 = a \<or> directed2undirected a = Inr a1"
proof (cases fu)
  case True
  have eq: "louvain_preprocess a w sw fu fb
      = (case directed2undirected a of
               Inl e \<Rightarrow> Inl e
             | Inr undirected \<Rightarrow> Inr (undirected, w, w))"
    using b True by (simp add: louvain_preprocess_def Let_def)
  have "(case directed2undirected a of
               Inl e \<Rightarrow> Inl e
             | Inr undirected \<Rightarrow> Inr (undirected, w, w)) = Inr (a1, ow, iw)"
    using pre unfolding eq .
  then show ?thesis by (cases "directed2undirected a") simp_all
next
  case False
  have "louvain_preprocess a w sw fu fb = Inr (a, w, w)"
    using b False by (simp add: louvain_preprocess_def Let_def)
  with pre show ?thesis by simp
qed


lemma bipartite_shape:
  "wf_csr (bipartite2undirected a)" "wf_csr (bipartite2directed a)"
  "n_row (bipartite2undirected a) = n_row a + n_col a"
  "n_col (bipartite2undirected a) = n_row a + n_col a"
  "n_row (bipartite2directed a) = n_row a + n_col a"
  "n_col (bipartite2directed a) = n_row a + n_col a"
  by (simp_all add: bipartite2undirected_def bipartite2directed_def Let_def)

lemma preprocess_shape_bipartite:
  assumes pre: "louvain_preprocess a w sw fu fb = Inr (a1, ow, iw)"
    and b: "n_row a \<noteq> n_col a \<or> fb"
  shows "wf_csr a1 \<and> n_row a1 = n_row a + n_col a \<and> n_col a1 = n_row a + n_col a"
  using preprocess_bipartite[OF pre b]
proof
  assume "a1 = bipartite2undirected a"
  then show ?thesis by (simp only: bipartite_shape simp_thms)
next
  assume "a1 = bipartite2directed a"
  then show ?thesis by (simp only: bipartite_shape simp_thms)
qed

lemma preprocess_shape_square:
  assumes pre: "louvain_preprocess a w sw fu fb = Inr (a1, ow, iw)" and wf: "wf_csr a"
    and b: "\<not> (n_row a \<noteq> n_col a \<or> fb)"
  shows "wf_csr a1 \<and> n_row a1 = n_row a \<and> n_col a1 = n_row a"
  using preprocess_square[OF pre b]
proof
  have sq: "n_col a = n_row a" using b by simp
  assume "a1 = a"
  then show ?thesis using wf sq by (simp only: simp_thms)
next
  have sq: "n_col a = n_row a" using b by simp
  assume d: "directed2undirected a = Inr a1"
  have "directed2undirected a
      = Inr (csr_of (n_row a) (n_row a) (\<lambda>i j. coeff a i j + coeff (transpose_csr a) i j))"
    by (rule directed2undirected_square[OF refl sq])
  with d have "a1 = csr_of (n_row a) (n_row a) (\<lambda>i j. coeff a i j + coeff (transpose_csr a) i j)"
    by (simp only: sum.inject)
  then show ?thesis by (simp only: wf_csr_of csr_of_shape simp_thms)
qed

lemma is_permutation_props:
  assumes "is_permutation nodes n"
  shows "length nodes = n" "set nodes = {0..<n}"
proof -
  have "length (sort nodes) = n" using assms by (simp add: is_permutation_def)
  then show "length nodes = n" by simp
  have "set (sort nodes) = {0..<n}" using assms by (simp add: is_permutation_def)
  then show "set nodes = {0..<n}" by simp
qed

lemma permute_nodes_shape:
  "wf_csr (permute_nodes nodes a)" "n_row (permute_nodes nodes a) = length nodes"
  "n_col (permute_nodes nodes a) = length nodes"
  by (simp_all add: permute_nodes_def)

lemma Louvain_fit_result:
  assumes fit: "Louvain_fit so permutation self a w sw fu fb sc = Some (Inr r)"
  obtains a1 ow iw g0 g m k where
    "louvain_preprocess a w sw fu fb = Inr (a1, ow, iw)"
    "AggregateGraph_init (if shuffle_nodes self then permute_nodes permutation a1 else a1)
        ow (Some iw) = Inr g0"
    "louvain_loop so self g0
        (identity_csr (n_row (if shuffle_nodes self then permute_nodes permutation a1 else a1))) 0
       = Some (Inr (g, m, k))"
    "out_labels r =
       (let n = n_row (if shuffle_nodes self then permute_nodes permutation a1 else a1);
            ls0 = indices m;
            ls1 = (if shuffle_nodes self
                   then map (\<lambda>r. ls0 ! r) (reverse_permutation permutation) else ls0);
            ls2 = (if sc then reindex_clusters ls1 else ls1)
        in if n > n_row a then take (n_row a) ls2 else ls2)"
    "out_secondary_labels r =
       (let n = n_row (if shuffle_nodes self then permute_nodes permutation a1 else a1);
            ls0 = indices m;
            ls1 = (if shuffle_nodes self
                   then map (\<lambda>r. ls0 ! r) (reverse_permutation permutation) else ls0);
            ls2 = (if sc then reindex_clusters ls1 else ls1)
        in if n > n_row a then Some (drop (n_row a) ls2) else None)"
proof (cases "louvain_preprocess a w sw fu fb")
  case (Inl e)
  then show ?thesis using fit by (simp add: Louvain_fit_def)
next
  case (Inr t)
  obtain a1 ow iw where t: "t = (a1, ow, iw)" by (cases t)
  define adj where "adj = (if shuffle_nodes self then permute_nodes permutation a1 else a1)"
  show ?thesis
  proof (cases "AggregateGraph_init adj ow (Some iw)")
    case (Inl e)
    then show ?thesis using fit Inr t by (cases "shuffle_nodes self") (simp_all add: Louvain_fit_def Let_def adj_def)
  next
    case g0: (Inr g0)
    show ?thesis
    proof (cases "louvain_loop so self g0 (identity_csr (n_row adj)) 0")
      case None
      then show ?thesis using fit Inr t g0 by (cases "shuffle_nodes self") (simp_all add: Louvain_fit_def Let_def adj_def)
    next
      case (Some res)
      show ?thesis
      proof (cases res)
        case (Inl e)
        then show ?thesis using fit Inr t g0 Some by (cases "shuffle_nodes self") (simp_all add: Louvain_fit_def Let_def adj_def)
      next
        case res: (Inr u)
        obtain g m k where u: "u = (g, m, k)" by (cases u)
        have "Louvain_fit so permutation self a w sw fu fb sc =
          (let n = n_row adj;
            ls0 = indices m;
            ls1 = (if shuffle_nodes self
                   then map (\<lambda>r. ls0 ! r) (reverse_permutation permutation) else ls0);
            ls2 = (if sc then reindex_clusters ls1 else ls1)
           in Some (Inr
                 \<lparr>out_labels = (if n > n_row a then take (n_row a) ls2 else ls2),
                  out_secondary_labels = (if n > n_row a then Some (drop (n_row a) ls2) else None),
                  out_iteration_count = k,
                  out_aggregate_graph = scale_csr (data_sum adj) (norm_adjacency g)\<rparr>))"
          using Inr t g0 Some res u
          by (cases "shuffle_nodes self") (simp_all add: Louvain_fit_def Let_def adj_def)
        with fit have r: "r = (let n = n_row adj;
            ls0 = indices m;
            ls1 = (if shuffle_nodes self
                   then map (\<lambda>r. ls0 ! r) (reverse_permutation permutation) else ls0);
            ls2 = (if sc then reindex_clusters ls1 else ls1)
           in 
                 \<lparr>out_labels = (if n > n_row a then take (n_row a) ls2 else ls2),
                  out_secondary_labels = (if n > n_row a then Some (drop (n_row a) ls2) else None),
                  out_iteration_count = k,
                  out_aggregate_graph = scale_csr (data_sum adj) (norm_adjacency g)\<rparr>)"
          by (simp add: Let_def)
        show ?thesis
          apply (rule that[of a1 ow iw g0 g m k])
          using Inr t g0 Some res u r
          by (simp_all add: adj_def Let_def)
      qed
    qed
  qed
qed

lemma rectangle_fit:
  "Louvain_fit ascending_order [3, 0, 4, 1, 2] shuffling_louvain rectangle (Named ''degree'')
     None False False True
   = Some (Inr \<lparr>out_labels = [0, 1], out_secondary_labels = Some [2, 0, 1],
          out_iteration_count = 2,
          out_aggregate_graph =
            \<lparr>n_row = 3, n_col = 3,
               row_entries = [[(0, 1), (2, 1)], [(1, 1)], []]\<rparr>\<rparr>)"
  by code_simp


text \<open>
  Claim C1. Let node \<open>i\<close> of a well-formed graph be visited in a state whose labels are
  node indices, and let \<open>A\<close> be its cluster. Over the proxy \<open>\<onehalf>\<cdot>(adjacency + adjacency\<^sup>T)\<close>
  both engines compute the same step, and that step is given by the specification's
  scores: with \<open>gain B = candidate_score B - exit_score\<close> for the clusters \<open>B \<noteq> A\<close> of the
  neighbours of \<open>i\<close>, the state is unchanged when no gain is positive, and otherwise node
  \<open>i\<close> is moved to a cluster of maximal (and positive) gain, which updates the labels,
  both cluster-mass accumulators and the gain of the pass.
\<close>

theorem node_move_by_scores:
  assumes so: "is_set_order set_order" and wf: "wf_graph g"
    and u: "directed2undirected (norm_adjacency g) = Inr u"
    and i: "i < n_nodes g"
    and len: "length (labels s) = n_nodes g" and lab: "\<forall>c \<in> set (labels s). c < n_nodes g"
  defines "adj \<equiv> scale_csr (1 / 2) u"
  defines "inp \<equiv> (case in_probs g of Some p \<Rightarrow> p | None \<Rightarrow> out_probs g)"
  shows "numba_node set_order res (n_nodes g) (out_probs g) inp (diagonal adj) adj i s
           = python_node set_order res (out_probs g) inp (diagonal adj) adj i s \<and>
         ((\<forall>b \<in> neighbor_clusters g s i. gain res g s i b \<le> 0) \<longrightarrow>
            python_node set_order res (out_probs g) inp (diagonal adj) adj i s = s) \<and>
         ((\<exists>b \<in> neighbor_clusters g s i. 0 < gain res g s i b) \<longrightarrow>
            (\<exists>b \<in> neighbor_clusters g s i.
               0 < gain res g s i b \<and>
               (\<forall>c \<in> neighbor_clusters g s i. gain res g s i c \<le> gain res g s i b) \<and>
               python_node set_order res (out_probs g) inp (diagonal adj) adj i s
                 = moved res g s i b))"
proof -
  define n where "n = n_nodes g"
  define row where "row = row_entries adj ! i"
  define cs where "cs = candidates set_order row i s"
  define ld where "ld = map (gain res g s i) cs"
  have nr: "n_row (norm_adjacency g) = n" using wf by (simp add: wf_graph_def n_def)
  have nc: "n_col (norm_adjacency g) = n" using square_of_sum[OF wf u] by (simp add: n_def)
  have px: "proxy_ok n adj (diagonal adj)" unfolding adj_def by (rule proxy_ok_fit[OF nr nc u])
  have ld_eq: "map (\<lambda>c. delta_of res (out_probs g) inp row i s c
                        - exit_delta_of res (out_probs g) inp (diagonal adj) row i s) cs = ld"
    unfolding ld_def row_def adj_def inp_def gain_def
    by (simp add: node_scores(1,2)[OF wf u i len])
  have pn: "python_node set_order res (out_probs g) inp (diagonal adj) adj i s
      = (if cs \<noteq> [] \<and> Max (set ld) > 0
         then move_node (out_probs g) inp i (cs ! argmax ld) (Max (set ld)) s else s)"
    unfolding python_node_alt Let_def row_def[symmetric] cs_def[symmetric] ld_eq ..
  have cands: "set cs = neighbor_clusters g s i"
    unfolding cs_def row_def adj_def neighbor_clusters_def
    using node_scores(3)[OF wf u i len, of set_order] so by (simp add: is_set_order_def)
  have eq: "numba_node set_order res (n_nodes g) (out_probs g) inp (diagonal adj) adj i s
           = python_node set_order res (out_probs g) inp (diagonal adj) adj i s"
  proof (rule numba_node_eq_python_node[OF so])
    show "labels s ! i < n_nodes g" using lab len i by simp
    show "\<forall>e \<in> set (row_entries adj ! i). labels s ! fst e < n_nodes g"
      using proxy_row[OF px] i lab len by (auto simp: n_def)
  qed
  have stay: "python_node set_order res (out_probs g) inp (diagonal adj) adj i s = s"
    if "\<forall>b \<in> neighbor_clusters g s i. gain res g s i b \<le> 0"
  proof (cases "cs = []")
    case True
    then show ?thesis by (simp add: pn)
  next
    case False
    then have "Max (set ld) \<in> set ld" by (simp add: ld_def)
    then have "Max (set ld) \<le> 0" using that cands by (auto simp: ld_def)
    then show ?thesis by (simp add: pn)
  qed
  have move: "\<exists>b \<in> neighbor_clusters g s i.
               0 < gain res g s i b \<and>
               (\<forall>c \<in> neighbor_clusters g s i. gain res g s i c \<le> gain res g s i b) \<and>
               python_node set_order res (out_probs g) inp (diagonal adj) adj i s
                 = moved res g s i b"
    if "\<exists>b \<in> neighbor_clusters g s i. 0 < gain res g s i b"
  proof -
    from that obtain b0 where b0: "b0 \<in> set cs" "0 < gain res g s i b0" using cands by auto
    then have ne: "cs \<noteq> []" "ld \<noteq> []" by (auto simp: ld_def)
    have "gain res g s i b0 \<le> Max (set ld)" using b0(1) by (simp add: ld_def)
    then have pos: "0 < Max (set ld)" using b0(2) by simp
    define b where "b = cs ! argmax ld"
    have am: "argmax ld < length cs" using argmax_less[OF ne(2)] by (simp add: ld_def)
    have mem: "b \<in> set cs" using am by (simp add: b_def)
    have gb: "gain res g s i b = Max (set ld)"
      using nth_argmax[OF ne(2)] am by (simp add: b_def ld_def)
    have best: "\<forall>c \<in> set cs. gain res g s i c \<le> gain res g s i b"
      unfolding gb by (simp add: ld_def)
    have nb: "b \<noteq> labels s ! i"
      using candidates_props(1)[OF so mem[unfolded cs_def]] .
    have "python_node set_order res (out_probs g) inp (diagonal adj) adj i s
        = move_node (out_probs g) inp i b (gain res g s i b) s"
      using ne(1) pos by (simp add: pn b_def gb[unfolded b_def])
    also have "\<dots> = moved res g s i b"
      unfolding inp_def by (rule move_node_moved[OF nb])
    finally have res: "python_node set_order res (out_probs g) inp (diagonal adj) adj i s
        = moved res g s i b" .
    have "b \<in> neighbor_clusters g s i" using mem cands by simp
    moreover have "0 < gain res g s i b" using pos gb by simp
    moreover have "\<forall>c \<in> neighbor_clusters g s i. gain res g s i c \<le> gain res g s i b"
      using best cands by simp
    ultimately show ?thesis using res by blast
  qed
  show ?thesis using eq stay move by blast
qed

theorem node_move_by_scores_witness:
  "is_set_order ascending_order \<and> wf_graph edge_and_loop \<and>
   directed2undirected (norm_adjacency edge_and_loop) = Inr edge_and_loop_sum \<and>
   0 < n_nodes edge_and_loop \<and>
   labels edge_and_loop_start = [0, 1, 2] \<and> n_nodes edge_and_loop = 3 \<and>
   neighbor_clusters edge_and_loop edge_and_loop_start 0 = {2} \<and>
   gain 1 edge_and_loop edge_and_loop_start 0 2 = 4 / 9 \<and>
   python_node ascending_order 1 (out_probs edge_and_loop)
       (case in_probs edge_and_loop of Some p \<Rightarrow> p | None \<Rightarrow> out_probs edge_and_loop)
       (diagonal (scale_csr (1 / 2) edge_and_loop_sum)) (scale_csr (1 / 2) edge_and_loop_sum)
       0 edge_and_loop_start
     = moved 1 edge_and_loop edge_and_loop_start 0 2 \<and>
   numba_node ascending_order 1 (n_nodes edge_and_loop) (out_probs edge_and_loop)
       (case in_probs edge_and_loop of Some p \<Rightarrow> p | None \<Rightarrow> out_probs edge_and_loop)
       (diagonal (scale_csr (1 / 2) edge_and_loop_sum)) (scale_csr (1 / 2) edge_and_loop_sum)
       0 edge_and_loop_start
     = moved 1 edge_and_loop edge_and_loop_start 0 2"
proof -
  have i: "0 < n_nodes edge_and_loop" by (simp add: edge_and_loop_def)
  have nc: "neighbor_clusters edge_and_loop edge_and_loop_start 0 = {2}" by code_simp
  have gn: "gain 1 edge_and_loop edge_and_loop_start 0 2 = 4 / 9" by code_simp
  note inst = node_move_by_scores [OF ascending_order_ok edge_and_loop_wf edge_and_loop_sum_eq i
      edge_and_loop_start_labels,
      of 1]
  have "\<exists>b \<in> neighbor_clusters edge_and_loop edge_and_loop_start 0.
          0 < gain 1 edge_and_loop edge_and_loop_start 0 b"
    by (simp add: nc gn)
  then have "python_node ascending_order 1 (out_probs edge_and_loop)
       (case in_probs edge_and_loop of Some p \<Rightarrow> p | None \<Rightarrow> out_probs edge_and_loop)
       (diagonal (scale_csr (1 / 2) edge_and_loop_sum)) (scale_csr (1 / 2) edge_and_loop_sum)
       0 edge_and_loop_start
     = moved 1 edge_and_loop edge_and_loop_start 0 2"
    using inst by (auto simp: nc)
  moreover have "labels edge_and_loop_start = [0, 1, 2]"
    by (simp add: edge_and_loop_start_def initial_state_def upt_rec)
  ultimately show ?thesis
    using inst ascending_order_ok edge_and_loop_wf edge_and_loop_sum_eq i nc gn
      edge_and_loop_facts(4)
    by simp
qed

text \<open>
  Claim C6, as amended. The labels reported by \<^verbatim>\<open>GreedyModularity.fit\<close> are the sweep
  labels renumbered densely by \<^verbatim>\<open>np.unique\<close>, that is by rank: they fill
  \<open>0, \<dots>, k - 1\<close> for \<open>k\<close> distinct sweep labels, and a node gets a smaller id than
  another exactly when its sweep label is smaller. The smallest surviving sweep label
  becomes 0, whichever node carries it.
\<close>

theorem fit_labels_renumbered_by_rank:
  assumes "GreedyModularity_fit set_order self g = Some (Inr r)"
  shows "\<exists>ls t. sweep_result set_order self g = Some (Inr (ls, t)) \<and>
           length (fit_labels r) = length ls \<and>
           set (fit_labels r) = {..<card (set ls)} \<and>
           (\<forall>i<length ls. \<forall>j<length ls.
              fit_labels r ! i < fit_labels r ! j \<longleftrightarrow> ls ! i < ls ! j)"
proof -
  from assms obtain x where x: "sweep_result set_order self g = Some x"
    and m: "map_sum id (\<lambda>r. \<lparr>fit_score = snd r, fit_labels = unique_inverse (fst r)\<rparr>) x = Inr r"
    unfolding fit_as_sweep_result by auto
  from m obtain p where p: "x = Inr p"
    and r': "r = \<lparr>fit_score = snd p, fit_labels = unique_inverse (fst p)\<rparr>"
    by (cases x) auto
  obtain ls t where lt: "p = (ls, t)" by (cases p)
  have sw: "sweep_result set_order self g = Some (Inr (ls, t))" using x p lt by simp
  have r: "r = \<lparr>fit_score = t, fit_labels = unique_inverse ls\<rparr>" using r' lt by simp
  show ?thesis
    using sw by (simp add: r unique_inverse_length unique_inverse_set unique_inverse_order)
qed

theorem fit_labels_renumbered_by_rank_witness:
  "GreedyModularity_fit ascending_order python_optimizer edge_and_loop
     = Some (Inr \<lparr>fit_score = 4 / 9, fit_labels = [1, 0, 1]\<rparr>) \<and>
   (\<exists>ls t. sweep_result ascending_order python_optimizer edge_and_loop = Some (Inr (ls, t)) \<and>
      length [1, 0, 1 :: nat] = length ls \<and>
      set [1, 0, 1 :: nat] = {..<card (set ls)} \<and>
      (\<forall>i<length ls. \<forall>j<length ls. [1, 0, 1 :: nat] ! i < [1, 0, 1] ! j \<longleftrightarrow> ls ! i < ls ! j))"
  using fit_labels_renumbered_by_rank [OF edge_and_loop_fit] edge_and_loop_fit by simp

text \<open>
  Claim C6 as stated fails: on the graph with an edge between nodes 0 and 2 and a
  self-loop at node 1 the sweeps end with the labels \<open>[2, 1, 2]\<close>; the reported labels are
  \<open>[1, 0, 1]\<close>, so node 0 does not get id 0, while first-occurrence order gives
  \<open>[0, 1, 0]\<close>.
\<close>

theorem first_occurrence_order_counterexample:
  "sweep_result ascending_order python_optimizer edge_and_loop = Some (Inr ([2, 1, 2], 4 / 9)) \<and>
   GreedyModularity_fit ascending_order python_optimizer edge_and_loop
     = Some (Inr \<lparr>fit_score = 4 / 9, fit_labels = [1, 0, 1]\<rparr>) \<and>
   first_occurrence_renumber [2, 1, 2] = [0, 1, 0] \<and>
   [1, 0, 1] \<noteq> first_occurrence_renumber [2, 1, 2]"
proof -
  have "first_occurrence_renumber [2, 1, 2] = [0, 1, 0]" by code_simp
  then show ?thesis using edge_and_loop_sweeps edge_and_loop_fit by simp
qed



text \<open>
  Claim C2. Along the run of \<^verbatim>\<open>GreedyModularity.fit\<close> (either engine), with \<open>state_after k\<close>
  the local variables after \<open>k\<close> sweeps: the gain \<^verbatim>\<open>pass_increase\<close> of every sweep is
  non-negative; after a sweep the flag that starts a new sweep is set exactly when that
  sweep's gain exceeds \<^verbatim>\<open>tol\<close>; when the call returns after \<open>m\<close> sweeps the reported score
  is the sum of the gains of the sweeps \<open>1, \<dots>, m\<close>, every sweep before the last gained more
  than \<^verbatim>\<open>tol\<close> and the last did not; and the call never returns exactly when every sweep
  gains more than \<^verbatim>\<open>tol\<close>.
\<close>

theorem sweep_gains:
  assumes u: "directed2undirected (norm_adjacency g) = Inr u"
    and eng: "engine self = ''python'' \<or> engine self = ''numba''"
  shows "(\<forall>k. 0 \<le> pass_increase (state_after set_order self g (scale_csr (1 / 2) u) k)) \<and>
         (\<forall>k. increase (state_after set_order self g (scale_csr (1 / 2) u) (Suc k))
                \<longleftrightarrow> tol self < pass_increase (state_after set_order self g (scale_csr (1 / 2) u) (Suc k))) \<and>
         (\<forall>r. GreedyModularity_fit set_order self g = Some (Inr r) \<longrightarrow>
            (\<exists>m>0. fit_score r
                       = (\<Sum>k = 1..m. pass_increase (state_after set_order self g (scale_csr (1 / 2) u) k)) \<and>
                    fit_labels r = unique_inverse (labels (state_after set_order self g (scale_csr (1 / 2) u) m)) \<and>
                    \<not> tol self < pass_increase (state_after set_order self g (scale_csr (1 / 2) u) m) \<and>
                    (\<forall>k. 0 < k \<and> k < m \<longrightarrow>
                       tol self < pass_increase (state_after set_order self g (scale_csr (1 / 2) u) k)))) \<and>
         (GreedyModularity_fit set_order self g = None \<longleftrightarrow>
            (\<forall>k>0. tol self < pass_increase (state_after set_order self g (scale_csr (1 / 2) u) k)))"
proof (intro conjI allI impI)
  fix k
  show "0 \<le> pass_increase (state_after set_order self g (scale_csr (1 / 2) u) k)"
    by (rule gains_nonneg)
  show "increase (state_after set_order self g (scale_csr (1 / 2) u) (Suc k))
          \<longleftrightarrow> tol self < pass_increase (state_after set_order self g (scale_csr (1 / 2) u) (Suc k))"
    by (rule flag_after_sweep)
next
  fix r
  assume "GreedyModularity_fit set_order self g = Some (Inr r)"
  then show "\<exists>m>0. fit_score r
                = (\<Sum>k = 1..m. pass_increase (state_after set_order self g (scale_csr (1 / 2) u) k)) \<and>
             fit_labels r = unique_inverse (labels (state_after set_order self g (scale_csr (1 / 2) u) m)) \<and>
             \<not> tol self < pass_increase (state_after set_order self g (scale_csr (1 / 2) u) m) \<and>
             (\<forall>k. 0 < k \<and> k < m \<longrightarrow>
                tol self < pass_increase (state_after set_order self g (scale_csr (1 / 2) u) k))"
    by (rule fit_returns_after[OF u eng])
next
  show "GreedyModularity_fit set_order self g = None \<longleftrightarrow>
          (\<forall>k>0. tol self < pass_increase (state_after set_order self g (scale_csr (1 / 2) u) k))"
    by (rule fit_none_iff[OF u eng])
qed

theorem sweep_gains_witness:
  "directed2undirected (norm_adjacency edge_and_loop) = Inr edge_and_loop_sum \<and>
   engine python_optimizer = ''python'' \<and>
   GreedyModularity_fit ascending_order python_optimizer edge_and_loop
     = Some (Inr \<lparr>fit_score = 4 / 9, fit_labels = [1, 0, 1]\<rparr>) \<and>
   (\<exists>m>0. 4 / 9 = (\<Sum>k = 1..m. pass_increase
                (state_after ascending_order python_optimizer edge_and_loop
                   (scale_csr (1 / 2) edge_and_loop_sum) k)) \<and>
      \<not> tol python_optimizer < pass_increase
                (state_after ascending_order python_optimizer edge_and_loop
                   (scale_csr (1 / 2) edge_and_loop_sum) m))"
proof -
  have e: "engine python_optimizer = ''python'' \<or> engine python_optimizer = ''numba''"
    by (simp add: python_optimizer_def)
  show ?thesis
    using sweep_gains [OF edge_and_loop_sum_eq e, of ascending_order]
      edge_and_loop_sum_eq edge_and_loop_fit
    by (auto simp: python_optimizer_def)
qed

text \<open>
  Claim C8, as amended. Neither \<^verbatim>\<open>GreedyModularity.__init__\<close> nor \<^verbatim>\<open>fit\<close> checks the
  resolution or the tolerance. Whenever the engine is accepted, the optimizer is built
  with any resolution and any tolerance, stored as they are given; on a well-formed
  graph \<^verbatim>\<open>fit\<close> then raises no error, whatever they are, and with a negative tolerance it
  does not return.
\<close>

theorem no_parameter_validation:
  assumes "wf_graph g"
    and "n_col (norm_adjacency g) = n_nodes g"
    and "check_engine available e = Inr e'"
  shows "GreedyModularity_init available r t e = Inr \<lparr>resolution = r, tol = t, engine = e'\<rparr> \<and>
         (\<forall>err. GreedyModularity_fit set_order \<lparr>resolution = r, tol = t, engine = e'\<rparr> g
                  \<noteq> Some (Inl err)) \<and>
         (t < 0 \<longrightarrow>
            GreedyModularity_fit set_order \<lparr>resolution = r, tol = t, engine = e'\<rparr> g = None)"
proof -
  define self where "self = \<lparr>resolution = r, tol = t, engine = e'\<rparr>"
  have eng: "engine self = ''python'' \<or> engine self = ''numba''"
    using check_engine_result[OF assms(3)] by (simp add: self_def)
  have init: "GreedyModularity_init available r t e = Inr self"
    by (simp add: GreedyModularity_init_def assms(3) self_def)
  obtain u where u: "directed2undirected (norm_adjacency g) = Inr u"
    using sum_of_square[OF assms(1,2)] by blast
  have noerr: "GreedyModularity_fit set_order self g \<noteq> Some (Inl err)" for err
    by (rule fit_no_error[OF u eng])
  have div: "GreedyModularity_fit set_order self g = None" if "t < 0"
    using fit_diverges[OF u eng] that by (simp add: self_def)
  show ?thesis using init noerr div unfolding self_def by blast
qed

theorem no_parameter_validation_witness:
  "wf_graph edge_and_loop \<and>
   n_col (norm_adjacency edge_and_loop) = n_nodes edge_and_loop \<and>
   check_engine True ''python'' = Inr ''python'' \<and>
   GreedyModularity_init True 0 (- 1) ''python''
     = Inr \<lparr>resolution = 0, tol = - 1, engine = ''python''\<rparr> \<and>
   GreedyModularity_fit ascending_order
       \<lparr>resolution = 0, tol = - 1, engine = ''python''\<rparr> edge_and_loop \<noteq> Some (Inl ValueError) \<and>
   GreedyModularity_fit ascending_order
       \<lparr>resolution = 0, tol = - 1, engine = ''python''\<rparr> edge_and_loop = None"
proof -
  have sq: "n_col (norm_adjacency edge_and_loop) = n_nodes edge_and_loop"
    by (simp add: edge_and_loop_def)
  have ce: "check_engine True ''python'' = Inr ''python''"
    by (simp add: check_engine_def)
  show ?thesis
    using no_parameter_validation [OF edge_and_loop_wf sq ce, of 0 "- 1" ascending_order]
      edge_and_loop_wf sq ce
    by simp
qed

text \<open>
  Claim C8 as stated fails: with resolution \<open>-1\<close> and tolerance \<open>-1\<close> the optimizer is
  built without an error; with resolution \<open>-1\<close> \<^verbatim>\<open>fit\<close> returns labels and a score; with
  tolerance \<open>-1\<close> \<^verbatim>\<open>fit\<close> raises nothing and does not return.
\<close>

theorem invalid_parameters_counterexample:
  "GreedyModularity_init True (- 1) (- 1) ''python''
     = Inr \<lparr>resolution = - 1, tol = - 1, engine = ''python''\<rparr> \<and>
   GreedyModularity_fit ascending_order
       \<lparr>resolution = - 1, tol = 1 / 1000, engine = ''python''\<rparr> edge_and_loop
     = Some (Inr \<lparr>fit_score = 8 / 9, fit_labels = [1, 0, 1]\<rparr>) \<and>
   GreedyModularity_fit ascending_order
       \<lparr>resolution = 1, tol = - 1, engine = ''python''\<rparr> edge_and_loop = None"
proof -
  have a: "GreedyModularity_init True (- 1) (- 1) ''python''
     = Inr \<lparr>resolution = - 1, tol = - 1, engine = ''python''\<rparr>"
    by (simp add: GreedyModularity_init_def check_engine_def)
  have b: "GreedyModularity_fit ascending_order
       \<lparr>resolution = - 1, tol = 1 / 1000, engine = ''python''\<rparr> edge_and_loop
     = Some (Inr \<lparr>fit_score = 8 / 9, fit_labels = [1, 0, 1]\<rparr>)"
    by code_simp
  have c: "GreedyModularity_fit ascending_order
       \<lparr>resolution = 1, tol = - 1, engine = ''python''\<rparr> edge_and_loop = None"
    by (rule fit_diverges[OF edge_and_loop_sum_eq]) simp_all
  show ?thesis using a b c by simp
qed

text \<open>
  Claim C4. Let the graph be well formed with out-weights (and in-weights, when present)
  summing to 1, and let the row assignment (and the column assignment, when given) give
  every node exactly one cluster. Then \<^verbatim>\<open>aggregate\<close> leaves a graph whose out-weights
  (and in-weights, when present) again sum to 1 and whose normalised adjacency has the
  same total mass. The call itself succeeds, except that a column assignment on a graph
  without in-weights raises after the adjacency has been replaced.
\<close>

theorem aggregate_conserves_mass:
  assumes "wf_graph g"
    and "sum_list (out_probs g) = 1"
    and "\<forall>p. in_probs g = Some p \<longrightarrow> sum_list p = 1"
    and "assigns row_membership (n_nodes g)"
    and "case col_membership of
           None \<Rightarrow> n_col (norm_adjacency g) = n_nodes g
         | Some c \<Rightarrow> assigns c (n_col (norm_adjacency g))"
  shows "\<exists>g' err. aggregate g row_membership col_membership = (g', err) \<and>
           (err = None \<longleftrightarrow> col_membership = None \<or> in_probs g \<noteq> None) \<and>
           sum_list (out_probs g') = 1 \<and>
           (\<forall>p. in_probs g' = Some p \<longrightarrow> sum_list p = 1) \<and>
           (in_probs g' = None \<longleftrightarrow> in_probs g = None) \<and>
           data_sum (norm_adjacency g') = data_sum (norm_adjacency g)"
proof -
  obtain M where M: "as_matrix row_membership = Inr M" "n_row M = n_nodes g" "one_per_row M"
    using as_matrix_assigns[OF assms(4)] by blast
  show ?thesis
  proof (cases col_membership)
    case None
    then have sq: "n_col (norm_adjacency g) = n_nodes g" using assms(5) by simp
    obtain g' where g': "aggregate g row_membership None = (g', None)"
      "sum_list (out_probs g') = sum_list (out_probs g)"
      "case in_probs g of None \<Rightarrow> in_probs g' = None
       | Some p \<Rightarrow> (\<exists>p'. in_probs g' = Some p' \<and> sum_list p' = sum_list p)"
      "data_sum (norm_adjacency g') = data_sum (norm_adjacency g)"
      using aggregate_rows_only[OF assms(1) sq M] by blast
    show ?thesis
      using g' assms(2,3) None by (cases "in_probs g") auto
  next
    case (Some c)
    then have "assigns c (n_col (norm_adjacency g))" using assms(5) by simp
    then obtain C where C: "as_matrix c = Inr C" "n_row C = n_col (norm_adjacency g)" "one_per_row C"
      using as_matrix_assigns by blast
    obtain g' err where g': "aggregate g row_membership (Some c) = (g', err)"
      "err = None \<longleftrightarrow> in_probs g \<noteq> None"
      "sum_list (out_probs g') = sum_list (out_probs g)"
      "case in_probs g of None \<Rightarrow> in_probs g' = None
       | Some p \<Rightarrow> (\<exists>p'. in_probs g' = Some p' \<and> sum_list p' = sum_list p)"
      "data_sum (norm_adjacency g') = data_sum (norm_adjacency g)"
      using aggregate_rows_cols[OF assms(1) M C] by blast
    show ?thesis
      using g' assms(2,3) Some by (cases "in_probs g") auto
  qed
qed


theorem aggregate_conserves_mass_witness:
  "wf_graph edge_and_loop \<and> sum_list (out_probs edge_and_loop) = 1 \<and>
   assigns (Labels [1, 0, 1]) (n_nodes edge_and_loop) \<and>
   (\<exists>g' err. aggregate edge_and_loop (Labels [1, 0, 1]) None = (g', err) \<and>
      (err = None \<longleftrightarrow> (None :: membership option) = None \<or> in_probs edge_and_loop \<noteq> None) \<and>
      sum_list (out_probs g') = 1 \<and>
      (\<forall>p. in_probs g' = Some p \<longrightarrow> sum_list p = 1) \<and>
      (in_probs g' = None \<longleftrightarrow> in_probs edge_and_loop = None) \<and>
      data_sum (norm_adjacency g') = data_sum (norm_adjacency edge_and_loop))"
proof -
  have a: "assigns (Labels [1, 0, 1]) (n_nodes edge_and_loop)"
    by (simp add: assigns_def edge_and_loop_facts)
  have c: "case (None :: membership option) of
             None \<Rightarrow> n_col (norm_adjacency edge_and_loop) = n_nodes edge_and_loop
           | Some c \<Rightarrow> assigns c (n_col (norm_adjacency edge_and_loop))"
    by (simp add: edge_and_loop_facts)
  show ?thesis
    by (intro conjI edge_and_loop_wf edge_and_loop_facts(1) a
          aggregate_conserves_mass [OF edge_and_loop_wf edge_and_loop_facts(1,2) a c])
qed

text \<open>
  Claim C9, as amended. On a well-formed graph, \<^verbatim>\<open>aggregate\<close> called with a row assignment
  that does not cover as many nodes as the graph has, or with a column assignment that
  does not cover as many nodes as the adjacency has columns, raises \<^verbatim>\<open>ValueError\<close> (from
  scipy's matrix product) and leaves the graph unchanged.
\<close>

theorem aggregate_rejects_mismatch:
  assumes wf: "wf_graph g"
    and mis: "n_assigned row_membership \<noteq> n_nodes g \<or>
              (\<exists>c. col_membership = Some c \<and> n_assigned c \<noteq> n_col (norm_adjacency g))"
  shows "aggregate g row_membership col_membership = (g, Some ValueError)"
proof -
  have nrA: "n_row (norm_adjacency g) = n_nodes g" using wf by (simp add: wf_graph_def)
  show ?thesis
  proof (cases "as_matrix row_membership")
    case (Inl e)
    then show ?thesis using as_matrix_error[OF Inl] by (simp add: aggregate_def)
  next
    case (Inr M)
    note nM = n_assigned_as_matrix[OF Inr]
    show ?thesis
    proof (cases col_membership)
      case None
      then have rmis: "n_row M \<noteq> n_nodes g" using mis nM by simp
      show ?thesis
      proof (cases rule: dot_csr_cases[of "norm_adjacency g" M])
        case mismatch
        then show ?thesis by (simp add: aggregate_def Inr None)
      next
        case (ok t)
        then have "dot_csr (transpose_csr M) t = Inl ValueError"
          using rmis nrA by (simp add: dot_csr_def)
        then show ?thesis using ok by (simp add: aggregate_def Inr None)
      qed
    next
      case (Some c)
      show ?thesis
      proof (cases "as_matrix c")
        case (Inl e)
        then show ?thesis using as_matrix_error[OF Inl] by (simp add: aggregate_def Inr Some)
      next
        case Cm: (Inr C)
        note nC = n_assigned_as_matrix[OF Cm]
        show ?thesis
        proof (cases rule: dot_csr_cases[of "norm_adjacency g" C])
          case mismatch
          then show ?thesis by (simp add: aggregate_def Inr Some Cm)
        next
          case (ok t)
          then have "n_row M \<noteq> n_nodes g" using mis nM nC Some by auto
          then have "dot_csr (transpose_csr M) t = Inl ValueError"
            using ok nrA by (simp add: dot_csr_def)
          then show ?thesis using ok by (simp add: aggregate_def Inr Some Cm)
        qed
      qed
    qed
  qed
qed


theorem aggregate_rejects_mismatch_witness:
  "wf_graph edge_and_loop \<and> n_assigned (Labels [1, 0]) = 2 \<and> n_nodes edge_and_loop = 3 \<and>
   aggregate edge_and_loop (Labels [1, 0]) None = (edge_and_loop, Some ValueError)"
proof -
  have a: "n_assigned (Labels [1, 0]) = 2" by (simp add: n_assigned_def)
  have m: "n_assigned (Labels [1, 0]) \<noteq> n_nodes edge_and_loop \<or>
    (\<exists>c. (None :: membership option) = Some c \<and>
          n_assigned c \<noteq> n_col (norm_adjacency edge_and_loop))"
    by (simp add: n_assigned_def edge_and_loop_facts)
  show ?thesis
    by (intro conjI edge_and_loop_wf a edge_and_loop_facts(4)
          aggregate_rejects_mismatch [OF edge_and_loop_wf m])
qed

text \<open>
  Claim C9 as stated fails: a membership matrix whose row for node 1 is empty leaves that
  node unassigned, yet \<^verbatim>\<open>aggregate\<close> raises nothing and replaces the graph; the mass of
  node 1 is dropped.
\<close>

theorem unassigned_node_counterexample:
  "aggregate edge_and_loop (Matrix node_1_unassigned) None
     = (\<lparr>n_nodes = 2,
         norm_adjacency = \<lparr>n_row = 2, n_col = 2, row_entries = [[], [(1, 2 / 3)]]\<rparr>,
         out_probs = [0, 2 / 3], in_probs = Some [0, 2 / 3]\<rparr>,
        None)"
  by code_simp

text \<open>
  Claim C10. \<^verbatim>\<open>AggregateGraph.__init__\<close> divides the adjacency by the sum of its stored
  weights without a guard: every graph it builds carries that quotient, and it fails only
  where one of the two calls of \<^verbatim>\<open>check_probs\<close> fails. When the sum is strictly positive
  the normalised adjacency sums to 1. When the sum is zero the division is a division by
  zero, nothing is raised for it, and what comes out does not sum to 1; a matrix without
  stored entries comes out as it went in.
\<close>

theorem normalization_domain:
  "(\<forall>g. AggregateGraph_init adjacency out_weights in_weights = Inr g
        \<longrightarrow> norm_adjacency g = normalize_adjacency adjacency) \<and>
   ((\<exists>g. AggregateGraph_init adjacency out_weights in_weights = Inr g) \<longleftrightarrow>
      (\<exists>op. check_probs out_weights adjacency = Inr op) \<and>
      (\<forall>iw. in_weights = Some iw
            \<longrightarrow> (\<exists>ip. check_probs iw (transpose_csr adjacency) = Inr ip))) \<and>
   (0 < data_sum adjacency \<longrightarrow> data_sum (normalize_adjacency adjacency) = 1) \<and>
   (data_sum adjacency = 0 \<longrightarrow> data_sum (normalize_adjacency adjacency) \<noteq> 1) \<and>
   (concat (row_entries adjacency) = []
      \<longrightarrow> data_sum adjacency = 0 \<and> normalize_adjacency adjacency = adjacency)"
proof (intro conjI allI impI)
  fix g
  assume "AggregateGraph_init adjacency out_weights in_weights = Inr g"
  then show "norm_adjacency g = normalize_adjacency adjacency"
    by (auto simp: AggregateGraph_init_cases split: sum.splits option.splits)
next
  show "(\<exists>g. AggregateGraph_init adjacency out_weights in_weights = Inr g) \<longleftrightarrow>
      (\<exists>op. check_probs out_weights adjacency = Inr op) \<and>
      (\<forall>iw. in_weights = Some iw
            \<longrightarrow> (\<exists>ip. check_probs iw (transpose_csr adjacency) = Inr ip))"
    by (auto simp: AggregateGraph_init_cases split: sum.splits option.splits)
next
  assume "0 < data_sum adjacency"
  then show "data_sum (normalize_adjacency adjacency) = 1"
    using normalize_adjacency_sum[of adjacency] by simp
next
  assume "data_sum adjacency = 0"
  then show "data_sum (normalize_adjacency adjacency) \<noteq> 1"
    using normalize_adjacency_no_mass[of adjacency] by simp
next
  assume "concat (row_entries adjacency) = []"
  then show "data_sum adjacency = 0"
    unfolding data_sum_def by (simp only: list.map sum_list.Nil)
next
  assume "concat (row_entries adjacency) = []"
  then show "normalize_adjacency adjacency = adjacency"
    by (rule normalize_adjacency_no_entries)
qed

theorem normalization_domain_witness:
  "0 < data_sum triangle \<and>
   (\<exists>g. AggregateGraph_init triangle (Named ''degree'') (Some (Named ''degree'')) = Inr g \<and>
        data_sum (norm_adjacency g) = 1) \<and>
   concat (row_entries no_edges) = [] \<and> data_sum no_edges = 0 \<and>
   (\<exists>g. AggregateGraph_init no_edges (Named ''uniform'') (Some (Named ''uniform'')) = Inr g \<and>
        norm_adjacency g = no_edges \<and> data_sum (norm_adjacency g) \<noteq> 1)"
proof -
  have p: "0 < data_sum triangle" by (simp add: data_sum_def triangle_def)
  have e: "concat (row_entries no_edges) = []" by (simp add: no_edges_def)
  obtain g where g: "AggregateGraph_init triangle (Named ''degree'') (Some (Named ''degree'')) = Inr g"
  proof -
    have "AggregateGraph_init triangle (Named ''degree'') (Some (Named ''degree''))
        = Inr \<lparr>n_nodes = 3,
               norm_adjacency =
                 \<lparr>n_row = 3, n_col = 3,
                  row_entries = [[(1, 1 / 6), (2, 1 / 6)], [(0, 1 / 6), (2, 1 / 6)],
                                 [(0, 1 / 6), (1, 1 / 6)]]\<rparr>,
               out_probs = [1 / 3, 1 / 3, 1 / 3],
               in_probs = Some [1 / 3, 1 / 3, 1 / 3]\<rparr>"
      by code_simp
    then show ?thesis using that by blast
  qed
  obtain h where h: "AggregateGraph_init no_edges (Named ''uniform'') (Some (Named ''uniform'')) = Inr h"
  proof -
    have "AggregateGraph_init no_edges (Named ''uniform'') (Some (Named ''uniform''))
        = Inr \<lparr>n_nodes = 3, norm_adjacency = no_edges,
               out_probs = [1 / 3, 1 / 3, 1 / 3],
               in_probs = Some [1 / 3, 1 / 3, 1 / 3]\<rparr>"
      by code_simp
    then show ?thesis using that by blast
  qed
  note t = normalization_domain [of triangle "Named ''degree''" "Some (Named ''degree'')"]
  note n = normalization_domain [of no_edges "Named ''uniform''" "Some (Named ''uniform'')"]
  have t1: "data_sum (norm_adjacency g) = 1"
    using t p g by simp
  have z: "data_sum no_edges = 0" and same: "normalize_adjacency no_edges = no_edges"
    using n e by simp_all
  have n1: "norm_adjacency h = no_edges"
    using n h same by simp
  have n2: "data_sum (norm_adjacency h) \<noteq> 1"
    using n z n1 same by simp
  show ?thesis using p e z g h t1 n1 n2 by blast
qed
text \<open>
  Claim C3, as amended. With a non-negative aggregation tolerance, the driver's loop,
  entered with a well-formed graph, ends after finitely many passes (at most one more
  than the graph has nodes), provided that every call of the optimizer that it makes
  returns. It runs through passes after which none of the three conditions holds and
  ends with the first pass after which one does: the score is at or below the
  aggregation tolerance, the aggregated graph has a single node, or the iteration count
  equals the cap. With a negative cap the loop ends by one of the first two.
\<close>

theorem driver_loop_terminates:
  assumes "is_set_order set_order"
    and "engine (algorithm self) = ''python'' \<or> engine (algorithm self) = ''numba''"
    and "0 \<le> agg_tol self"
    and "driver_ok g m"
    and "optimizer_returns set_order self g m c"
  shows "\<exists>gl ml cl fitted g' m'.
           (continues set_order self)\<^sup>*\<^sup>* (g, m, c) (gl, ml, cl) \<and>
           loop_body set_order self gl ml cl = Some (Inr (fitted, g', m', cl + 1)) \<and>
           stop_test self fitted g' (cl + 1) \<and>
           louvain_loop set_order self g m c = Some (Inr (g', m', cl + 1)) \<and>
           c \<le> cl \<and> cl - c \<le> int (n_nodes g) \<and>
           (max_agg_iter self < 0 \<and> 0 \<le> c \<longrightarrow>
              fit_score fitted \<le> agg_tol self \<or> n_nodes g' = 1)"
proof -
  obtain gl ml cl fitted g' m' where
    r: "(continues set_order self)\<^sup>*\<^sup>* (g, m, c) (gl, ml, cl)"
    "loop_body set_order self gl ml cl = Some (Inr (fitted, g', m', cl + 1))"
    "stop_test self fitted g' (cl + 1)"
    "louvain_loop set_order self g m c = Some (Inr (g', m', cl + 1))"
    "c \<le> cl" "cl - c \<le> int (n_nodes g)"
    using louvain_loop_returns[OF assms] by blast
  have "fit_score fitted \<le> agg_tol self \<or> n_nodes g' = 1"
    if "max_agg_iter self < 0" "0 \<le> c"
  proof -
    have "cl + 1 \<noteq> max_agg_iter self" using that r(5) by simp
    then show ?thesis using r(3) by (simp add: stop_test_def)
  qed
  then show ?thesis using r by blast
qed

theorem driver_loop_terminates_witness:
  "is_set_order ascending_order \<and>
   (engine (algorithm default_louvain) = ''python'' \<or>
    engine (algorithm default_louvain) = ''numba'') \<and>
   0 \<le> agg_tol default_louvain \<and>
   driver_ok edge_and_loop (identity_csr 3) \<and>
   optimizer_returns ascending_order default_louvain edge_and_loop (identity_csr 3) 0 \<and>
   (\<exists>gl ml cl fitted g' m'.
      (continues ascending_order default_louvain)\<^sup>*\<^sup>*
        (edge_and_loop, identity_csr 3, 0) (gl, ml, cl) \<and>
      loop_body ascending_order default_louvain gl ml cl = Some (Inr (fitted, g', m', cl + 1)) \<and>
      stop_test default_louvain fitted g' (cl + 1) \<and>
      louvain_loop ascending_order default_louvain edge_and_loop (identity_csr 3) 0
        = Some (Inr (g', m', cl + 1)) \<and>
      0 \<le> cl \<and> cl - 0 \<le> int (n_nodes edge_and_loop) \<and>
      (max_agg_iter default_louvain < 0 \<and> (0::int) \<le> 0 \<longrightarrow>
         fit_score fitted \<le> agg_tol default_louvain \<or> n_nodes g' = 1))"
proof -
  have e: "engine (algorithm default_louvain) = ''python'' \<or>
           engine (algorithm default_louvain) = ''numba''"
    by (simp add: default_louvain_def python_optimizer_def)
  have t: "0 \<le> tol (algorithm default_louvain)"
    by (simp add: default_louvain_def python_optimizer_def)
  have a: "0 \<le> agg_tol default_louvain" by (simp add: default_louvain_def)
  have r: "optimizer_returns ascending_order default_louvain edge_and_loop (identity_csr 3) 0"
    by (rule optimizer_returns_exact[OF ascending_order_ok e t edge_and_loop_driver_ok])
  show ?thesis
    by (intro conjI ascending_order_ok e a r edge_and_loop_driver_ok
          driver_loop_terminates [OF ascending_order_ok e a edge_and_loop_driver_ok r])
qed

text \<open>
  Claim C3 as stated fails: with the aggregation tolerance \<open>1/1000\<close> and the optimizer's
  tolerance \<open>-1\<close> every sweep gains more than the tolerance, so the first call of the
  optimizer never returns, and neither does the loop nor \<^verbatim>\<open>Louvain.fit\<close>.
\<close>

theorem negative_tolerance_counterexample:
  "0 \<le> agg_tol negative_tol_louvain \<and>
   louvain_loop ascending_order negative_tol_louvain edge_and_loop (identity_csr 3) 0 = None \<and>
   Louvain_fit ascending_order [] negative_tol_louvain edge_and_loop_adjacency
     (Named ''degree'') None False False True = None"
proof -
  have "0 \<le> agg_tol negative_tol_louvain" by (simp add: negative_tol_louvain_def)
  then show ?thesis using negative_tol_diverges negative_tol_fit by simp
qed

text \<open>
  Claim C7. Let the input be a well-formed sparse matrix with \<open>n1\<close> rows and \<open>n2\<close>
  columns and, when the nodes are shuffled, let the drawn order be a permutation of the
  nodes of the graph that is built. Whenever \<^verbatim>\<open>Louvain.fit\<close> returns, the vector
  \<^verbatim>\<open>labels_\<close> has length \<open>n1\<close>, one label for each row node. In the bipartite case
  (rectangular input, or \<^verbatim>\<open>force_biadjacency\<close>) with at least one column the vector
  \<^verbatim>\<open>secondary_labels_\<close> is set and has length \<open>n2\<close>, one label for each column node. In
  every other case, and so for a bipartite input without columns, \<^verbatim>\<open>secondary_labels_\<close>
  is left unset: the split of line 545 is taken only when the graph has more nodes than
  the input has rows.
\<close>

theorem louvain_label_lengths:
  assumes so: "is_set_order set_order" and wf: "wf_csr adjacency"
    and p: "shuffle_nodes self \<longrightarrow>
              is_permutation permutation
                (if bipartite_input adjacency force_biadjacency
                 then n_row adjacency + n_col adjacency else n_row adjacency)"
    and fit: "Louvain_fit set_order permutation self adjacency weights_arg secondary_weights
                force_undirected force_biadjacency sorted_cluster = Some (Inr r)"
  shows "length (out_labels r) = n_row adjacency \<and>
         (if bipartite_input adjacency force_biadjacency \<and> 0 < n_col adjacency
          then \<exists>s. out_secondary_labels r = Some s \<and> length s = n_col adjacency
          else out_secondary_labels r = None)"
proof -
  define N where "N = (if bipartite_input adjacency force_biadjacency
                       then n_row adjacency + n_col adjacency else n_row adjacency)"
  from fit obtain a1 ow iw g0 g m k where
    pre: "louvain_preprocess adjacency weights_arg secondary_weights force_undirected
            force_biadjacency = Inr (a1, ow, iw)"
    and init: "AggregateGraph_init
                 (if shuffle_nodes self then permute_nodes permutation a1 else a1)
                 ow (Some iw) = Inr g0"
    and loop: "louvain_loop set_order self g0
                 (identity_csr (n_row (if shuffle_nodes self then permute_nodes permutation a1
                                       else a1))) 0
               = Some (Inr (g, m, k))"
    and lab: "out_labels r =
       (let n = n_row (if shuffle_nodes self then permute_nodes permutation a1 else a1);
            ls0 = indices m;
            ls1 = (if shuffle_nodes self
                   then map (\<lambda>r. ls0 ! r) (reverse_permutation permutation) else ls0);
            ls2 = (if sorted_cluster then reindex_clusters ls1 else ls1)
        in if n > n_row adjacency then take (n_row adjacency) ls2 else ls2)"
    and sec: "out_secondary_labels r =
       (let n = n_row (if shuffle_nodes self then permute_nodes permutation a1 else a1);
            ls0 = indices m;
            ls1 = (if shuffle_nodes self
                   then map (\<lambda>r. ls0 ! r) (reverse_permutation permutation) else ls0);
            ls2 = (if sorted_cluster then reindex_clusters ls1 else ls1)
        in if n > n_row adjacency then Some (drop (n_row adjacency) ls2) else None)"
    by (rule Louvain_fit_result)
  define adj where "adj = (if shuffle_nodes self then permute_nodes permutation a1 else a1)"
  define ls0 where "ls0 = indices m"
  define ls1 where "ls1 = (if shuffle_nodes self
                   then map (\<lambda>r. ls0 ! r) (reverse_permutation permutation) else ls0)"
  define ls2 where "ls2 = (if sorted_cluster then reindex_clusters ls1 else ls1)"
  have sh1: "wf_csr a1 \<and> n_row a1 = N \<and> n_col a1 = N"
  proof (cases "bipartite_input adjacency force_biadjacency")
    case True
    then show ?thesis
      using preprocess_shape_bipartite[OF pre] by (simp add: N_def bipartite_input_def)
  next
    case False
    then show ?thesis
      using preprocess_shape_square[OF pre wf] by (simp add: N_def bipartite_input_def)
  qed
  have lenp: "length permutation = N" if "shuffle_nodes self"
    using that p is_permutation_props(1) by (simp add: N_def)
  have sh: "wf_csr adj" "n_row adj = N" "n_col adj = N"
    using sh1 lenp by (simp_all add: adj_def permute_nodes_shape)
  have g0: "wf_graph g0" "n_nodes g0 = N" "n_col (norm_adjacency g0) = N"
    using init_wf[OF init[folded adj_def] sh(1)] sh(2,3) by simp_all
  have ok0: "driver_ok g0 (identity_csr N)"
    using g0 identity_one_per_row[of N] by (simp add: driver_ok_def identity_csr_def)
  have m: "one_per_row m" "n_row m = N"
    using loop_result_ok[OF so ok0 loop[folded adj_def, unfolded sh(2)]]
    by (simp_all add: driver_ok_def identity_csr_def)
  have l0: "length ls0 = N" using indices_length[OF m(1)] m(2) by (simp add: ls0_def)
  have l1: "length ls1 = N"
    using l0 lenp by (simp add: ls1_def reverse_permutation_length)
  have l2: "length ls2 = N" using l1 by (simp add: ls2_def reindex_clusters_length)
  have lab': "out_labels r = (if N > n_row adjacency then take (n_row adjacency) ls2 else ls2)"
    using lab sh(2) by (simp add: Let_def adj_def ls0_def ls1_def ls2_def)
  have sec': "out_secondary_labels r =
                (if N > n_row adjacency then Some (drop (n_row adjacency) ls2) else None)"
    using sec sh(2) by (simp add: Let_def adj_def ls0_def ls1_def ls2_def)
  show ?thesis
  proof (cases "bipartite_input adjacency force_biadjacency \<and> 0 < n_col adjacency")
    case True
    then have "N = n_row adjacency + n_col adjacency" "N > n_row adjacency"
      by (simp_all add: N_def)
    then show ?thesis using True lab' sec' l2 by simp
  next
    case False
    then have "N = n_row adjacency" by (auto simp: N_def)
    then show ?thesis using False lab' sec' l2 by simp
  qed
qed

theorem louvain_label_lengths_witness:
  "is_set_order ascending_order \<and> wf_csr rectangle \<and> shuffle_nodes shuffling_louvain \<and>
   bipartite_input rectangle False \<and> is_permutation [3, 0, 4, 1, 2] 5 \<and>
   (\<exists>r. Louvain_fit ascending_order [3, 0, 4, 1, 2] shuffling_louvain rectangle
           (Named ''degree'') None False False True = Some (Inr r) \<and>
        length (out_labels r) = 2 \<and>
        (\<exists>s. out_secondary_labels r = Some s \<and> length s = 3))"
proof -
  have wf: "wf_csr rectangle" by (simp add: wf_csr_def rectangle_def)
  have sh: "shuffle_nodes shuffling_louvain" by (simp add: shuffling_louvain_def)
  have b: "bipartite_input rectangle False" by (simp add: bipartite_input_def rectangle_def)
  have p: "is_permutation [3, 0, 4, 1, 2] 5" by code_simp
  have n: "n_row rectangle = 2" "n_col rectangle = 3" by (simp_all add: rectangle_def)
  have p': "shuffle_nodes shuffling_louvain \<longrightarrow>
              is_permutation [3, 0, 4, 1, 2]
                (if bipartite_input rectangle False
                 then n_row rectangle + n_col rectangle else n_row rectangle)"
    using p b n by simp
  from louvain_label_lengths [OF ascending_order_ok wf p' rectangle_fit]
  show ?thesis using ascending_order_ok wf sh b p n rectangle_fit by simp
qed

text \<open>
  Claim C7 as stated fails for a bipartite input without columns: on the \<open>2 \<times> 0\<close>
  biadjacency matrix, with uniform weights and \<^verbatim>\<open>force_undirected\<close>, the graph has the
  two row nodes and no edge, the first score is 0, and \<^verbatim>\<open>Louvain.fit\<close> returns with two
  labels and with \<^verbatim>\<open>secondary_labels_\<close> unset, where the claim has a vector of length 0.
\<close>

theorem no_columns_counterexample:
  "wf_csr no_columns \<and> bipartite_input no_columns False \<and> n_col no_columns = 0 \<and>
   (\<exists>r. Louvain_fit ascending_order [] default_louvain no_columns (Named ''uniform'') None
           True False True = Some (Inr r) \<and>
        out_labels r = [0, 1] \<and> out_secondary_labels r = None \<and>
        out_iteration_count r = 1)"
proof -
  have "Louvain_fit ascending_order [] default_louvain no_columns (Named ''uniform'') None
          True False True
      = Some (Inr \<lparr>out_labels = [0, 1], out_secondary_labels = None,
                    out_iteration_count = 1,
                    out_aggregate_graph = \<lparr>n_row = 2, n_col = 2, row_entries = [[], []]\<rparr>\<rparr>)"
    by code_simp
  moreover have "wf_csr no_columns" by (simp add: wf_csr_def no_columns_def)
  moreover have "bipartite_input no_columns False"
    by (simp add: bipartite_input_def no_columns_def)
  moreover have "n_col no_columns = 0" by (simp add: no_columns_def)
  ultimately show ?thesis by simp
qed
end
